theory Spec2Isabelle
  imports
    Main
    "HOL-Library.Char_ord"
    "HOL-Library.List_Lexorder"
    "HOL-Library.Product_Lexorder"
begin

section \<open>HyperMonetIconThemeScript: mapping table, icon generation, packing\<close>

text \<open>
  Python \<open>str\<close> values are modelled as \<open>string\<close>. The order on strings is the
  lexicographic order of \<open>HOL-Library.List_Lexorder\<close> over the character codes
  (\<open>HOL-Library.Char_ord\<close>), which is how Python compares \<open>str\<close>; tuples are compared
  lexicographically (\<open>HOL-Library.Product_Lexorder\<close>), as Python compares tuples.
\<close>

subsection \<open>MappingProcessor\<close>

text \<open>
  An XML element of the parsed source table: its tag and its attributes. The children of
  the root are a list of elements, in document order.
\<close>

type_synonym attrs = "(string \<times> string) list"
type_synonym element = "string \<times> attrs"

text \<open>\<open>item.get(key, default)\<close> of \<open>xml.etree.ElementTree\<close>.\<close>

definition get_attr :: "attrs \<Rightarrow> string \<Rightarrow> string \<Rightarrow> string" where
  "get_attr a k d = (case map_of a k of Some v \<Rightarrow> v | None \<Rightarrow> d)"

text \<open>\<open>root.findall('item')\<close>: the direct children whose tag is \<open>item\<close>.\<close>

definition findall :: "string \<Rightarrow> element list \<Rightarrow> attrs list" where
  "findall tag children = map snd (filter (\<lambda>e. fst e = tag) children)"

text \<open>
  \<open>re.match(r'ComponentInfo\{([^/]+)/.*?\}', component)\<close>. The match is anchored at the
  start of the string only. \<open>strip_prefix\<close> matches the literal \<open>ComponentInfo{\<close>;
  the greedy group \<open>[^/]+\<close> must be followed by \<open>/\<close>, so it takes every character up
  to the first \<open>/\<close> and must be non-empty; \<open>lazy_tail\<close> is \<open>.*?\}\<close>: at each position
  it tries the closing brace first and otherwise consumes one character other than a
  line feed (\<open>.\<close> does not match a line feed).
\<close>

fun strip_prefix :: "string \<Rightarrow> string \<Rightarrow> string option" where
  "strip_prefix [] s = Some s"
| "strip_prefix (p # ps) [] = None"
| "strip_prefix (p # ps) (c # cs) = (if p = c then strip_prefix ps cs else None)"

fun lazy_tail :: "string \<Rightarrow> bool" where
  "lazy_tail [] = False"
| "lazy_tail (c # cs) =
     (if c = CHR ''}'' then True
      else if c = CHR 0x0A then False
      else lazy_tail cs)"

definition parse_component_info :: "string \<Rightarrow> string" where
  "parse_component_info component =
     (case strip_prefix ''ComponentInfo{'' component of
        None \<Rightarrow> []
      | Some r \<Rightarrow>
          (let g = takeWhile (\<lambda>c. c \<noteq> CHR ''/'') r;
               t = dropWhile (\<lambda>c. c \<noteq> CHR ''/'') r
           in if g \<noteq> [] \<and> t \<noteq> [] \<and> lazy_tail (tl t) then g else []))"

text \<open>
  A Python \<open>dict\<close> keeps insertion order; assigning to a key that is present replaces
  the value in place, assigning to a new key appends.
\<close>

fun dict_set :: "'k \<Rightarrow> 'v \<Rightarrow> ('k \<times> 'v) list \<Rightarrow> ('k \<times> 'v) list" where
  "dict_set k v [] = [(k, v)]"
| "dict_set k v (p # ps) = (if fst p = k then (k, v) # ps else p # dict_set k v ps)"

text \<open>The body of the loop over the items of \<open>convert_icon_mapper\<close>.\<close>

definition dedup_step ::
  "(string \<times> string \<times> string) list \<Rightarrow> attrs \<Rightarrow> (string \<times> string \<times> string) list" where
  "dedup_step unique_packages item =
     (let component = get_attr item ''component'' [];
          name = get_attr item ''name'' [];
          drawable = get_attr item ''drawable'' []
      in if component \<noteq> [] \<and> drawable \<noteq> [] then
           (let package = parse_component_info component
            in if package \<noteq> [] then dict_set package (name, drawable) unique_packages
               else unique_packages)
         else unique_packages)"

definition unique_packages_of :: "element list \<Rightarrow> (string \<times> string \<times> string) list" where
  "unique_packages_of children = foldl dedup_step [] (findall ''item'' children)"

text \<open>
  The rows of the normalized table, in the order in which the sub-elements are added to
  the new root: \<open>sorted(unique_packages.items())\<close>. A row is
  \<open>(package, (name, drawable))\<close>.
\<close>

definition normalized_rows :: "element list \<Rightarrow> (string \<times> string \<times> string) list" where
  "normalized_rows children = sort (unique_packages_of children)"

text \<open>
  The row that one source item contributes, if any: the condition and the assignment of
  the loop body above, read off for a single item. It is used to state which items are
  kept; \<open>dedup_step\<close> is the model of the code.
\<close>

definition row_of_item :: "attrs \<Rightarrow> (string \<times> string \<times> string) option" where
  "row_of_item item =
     (let component = get_attr item ''component'' [];
          drawable = get_attr item ''drawable'' []
      in if component \<noteq> [] \<and> drawable \<noteq> [] \<and> parse_component_info component \<noteq> []
         then Some (parse_component_info component, get_attr item ''name'' [], drawable)
         else None)"

definition kept_rows :: "element list \<Rightarrow> (string \<times> string \<times> string) list" where
  "kept_rows children = List.map_filter row_of_item (findall ''item'' children)"

text \<open>
  The strings that the regular expression of \<open>parse_component_info\<close> matches, and the
  group it returns, stated without the matching procedure: \<open>ComponentInfo{\<close>, then the
  non-empty group \<open>p\<close> free of \<open>/\<close>, then \<open>/\<close>, then characters other than a line feed,
  then a closing brace; what follows the brace is not looked at.
\<close>

definition regex_package :: "string \<Rightarrow> string \<Rightarrow> bool" where
  "regex_package component p \<longleftrightarrow>
     (\<exists>cls rest. component = ''ComponentInfo{'' @ p @ CHR ''/'' # cls @ CHR ''}'' # rest
        \<and> p \<noteq> [] \<and> CHR ''/'' \<notin> set p \<and> CHR 0x0A \<notin> set cls)"

text \<open>
  The extraction rule as the specification words it: the package is the text between
  \<open>ComponentInfo{\<close> and the first \<open>/\<close>. \<open>None\<close> when the string does not start with
  \<open>ComponentInfo{\<close> or has no \<open>/\<close> after it.
\<close>

definition text_between :: "string \<Rightarrow> string option" where
  "text_between component =
     (case strip_prefix ''ComponentInfo{'' component of
        None \<Rightarrow> None
      | Some r \<Rightarrow>
          if CHR ''/'' \<in> set r then Some (takeWhile (\<lambda>c. c \<noteq> CHR ''/'') r) else None)"

definition example_table :: "element list" where
  "example_table =
     [(''item'', [(''component'', ''ComponentInfo{org.b/.Main}''), (''name'', ''B''),
                  (''drawable'', ''b'')]),
      (''item'', [(''component'', ''ComponentInfo{com.example.app/.MainActivity}''),
                  (''name'', ''One''), (''drawable'', ''first'')]),
      (''item'', [(''component'', ''ComponentInfo{com.example.app/.MainActivity}''),
                  (''name'', ''Two''), (''drawable'', ''second'')])]"

text \<open>
  Three items for the examples: one without a drawable, one whose component has no
  closing brace, one complete.
\<close>

definition skipped_item :: attrs where
  "skipped_item = [(''component'', ''ComponentInfo{com.example.app/.MainActivity}''),
                   (''name'', ''NoDrawable'')]"

definition unclosed_item :: attrs where
  "unclosed_item = [(''component'', ''ComponentInfo{a/b''), (''name'', ''N''),
                    (''drawable'', ''d'')]"

definition kept_item :: attrs where
  "kept_item = [(''component'', ''ComponentInfo{com.example.app/.MainActivity}''),
                (''name'', ''Two''), (''drawable'', ''second'')]"

subsection \<open>Writing the normalized table\<close>

text \<open>
  \<open>ET.tostring(new_root, encoding='unicode')\<close> of the standard library, for the tree
  that \<open>convert_icon_mapper\<close> builds: a root \<open>resources\<close> without text whose children are
  empty \<open>item\<close> elements with the attributes \<open>name\<close>, \<open>package\<close>, \<open>drawable\<close>, set in
  this order. The serializer escapes \<open>&\<close>, \<open><\<close>, \<open>>\<close>, the double quote, carriage
  return, line feed and tab in attribute values, writes an element without children as
  \<open><tag ... />\<close>, and adds no white space.
\<close>

definition escape_attrib_char :: "char \<Rightarrow> string" where
  \<open>escape_attrib_char c =
     (if c = CHR ''&'' then ''&amp;''
      else if c = CHR ''<'' then ''&lt;''
      else if c = CHR ''>'' then ''&gt;''
      else if c = CHR 0x22 then ''&quot;''
      else if c = CHR 0x0D then ''&#13;''
      else if c = CHR 0x0A then ''&#10;''
      else if c = CHR 0x09 then ''&#09;''
      else [c])\<close>

definition escape_attrib :: "string \<Rightarrow> string" where
  "escape_attrib text = concat (map escape_attrib_char text)"

definition item_markup :: "string \<times> string \<times> string \<Rightarrow> string" where
  \<open>item_markup row =
     (case row of (package, name, drawable) \<Rightarrow>
        ''<item name="'' @ escape_attrib name @ ''" package="'' @ escape_attrib package
          @ ''" drawable="'' @ escape_attrib drawable @ ''" />'')\<close>

definition tostring :: "(string \<times> string \<times> string) list \<Rightarrow> string" where
  "tostring rows =
     (if rows = [] then ''<resources />''
      else ''<resources>'' @ concat (map item_markup rows) @ ''</resources>'')"

text \<open>\<open>str.split(sep)\<close> for a separator of one character.\<close>

fun split_on :: "char \<Rightarrow> string \<Rightarrow> string list" where
  "split_on sep [] = [[]]"
| "split_on sep (c # cs) =
     (if c = sep then [] # split_on sep cs
      else (case split_on sep cs of [] \<Rightarrow> [[c]] | l # ls \<Rightarrow> (c # l) # ls))"

text \<open>
  \<open>str.strip()\<close> removes white space at both ends; the test \<open>if line.strip()\<close> is
  \<open>strip line \<noteq> []\<close>. A character is its code point, and \<open>is_space\<close> holds for the
  code points below 256 for which \<open>str.isspace\<close> does. \<open>startswith\<close> and \<open>endswith\<close> are
  the methods of \<open>str\<close>.
\<close>

definition is_space :: "char \<Rightarrow> bool" where
  "is_space c \<longleftrightarrow> of_char c \<in> {9, 10, 11, 12, 13, 28, 29, 30, 31, 32, 133, 160 :: nat}"

definition strip :: "string \<Rightarrow> string" where
  "strip s = rev (dropWhile is_space (rev (dropWhile is_space s)))"

definition startswith :: "string \<Rightarrow> string \<Rightarrow> bool" where
  "startswith s p \<longleftrightarrow> take (length p) s = p"

definition endswith :: "string \<Rightarrow> string \<Rightarrow> bool" where
  "endswith s p \<longleftrightarrow> length p \<le> length s \<and> drop (length s - length p) s = p"

text \<open>
  The body of the loop over \<open>rough_string.split('>')\<close>; the state is
  \<open>(formatted_string, indent)\<close>. The indentation is set after a line is appended.
\<close>

definition format_step :: "string \<times> string \<Rightarrow> string \<Rightarrow> string \<times> string" where
  "format_step st line =
     (case st of (formatted_string, indent) \<Rightarrow>
        if strip line \<noteq> [] then
          if \<not> startswith line ''</'' then
            (formatted_string @ indent @ line @ [CHR ''>'', CHR 0x0A],
             if \<not> startswith line ''<resources'' \<and> \<not> endswith line ''/>''
             then ''    '' else indent)
          else (formatted_string @ line @ [CHR ''>'', CHR 0x0A], [])
        else (formatted_string, indent))"

text \<open>The text written to the output file: the declaration line, then the formatted string.\<close>

definition icon_mapper_text :: "(string \<times> string \<times> string) list \<Rightarrow> string" where
  \<open>icon_mapper_text rows =
     ''<?xml version="1.0" encoding="utf-8"?>'' @ [CHR 0x0A]
       @ fst (foldl format_step ([], []) (split_on CHR ''>'' (tostring rows)))\<close>

definition convert_icon_mapper :: "element list \<Rightarrow> string" where
  "convert_icon_mapper children = icon_mapper_text (normalized_rows children)"


text \<open>
  Notions used to state the layout of the written text: the declaration line, a row
  without its closing \<open>>\<close>, the number of leading spaces of a line, and the lines of a
  text that hold an \<open>item\<close> element.
\<close>

definition decl_line :: string where
  \<open>decl_line = ''<?xml version="1.0" encoding="utf-8"?>''\<close>

definition item_seg :: "string \<times> string \<times> string \<Rightarrow> string" where
  "item_seg row = butlast (item_markup row)"

definition indent_of :: "string \<Rightarrow> nat" where
  "indent_of line = length (takeWhile (\<lambda>c. c = CHR '' '') line)"

definition item_lines :: "string \<Rightarrow> string list" where
  "item_lines text =
     filter (\<lambda>l. startswith (dropWhile (\<lambda>c. c = CHR '' '') l) ''<item'')
       (split_on CHR 0x0A text)"

subsection \<open>IconProcessor\<close>

text \<open>
  An RGBA pixel, and an image as Pillow holds it: its size \<open>(width, height)\<close> and its
  pixels row by row, as \<open>getdata\<close> returns them and \<open>putdata\<close> takes them.
\<close>

type_synonym pixel = "nat \<times> nat \<times> nat \<times> nat"

record image =
  im_size :: "nat \<times> nat"
  im_data :: "pixel list"

text \<open>
  What the script takes from its environment and from the libraries: whether a path
  exists, \<open>cairosvg.svg2png\<close> followed by \<open>Image.open\<close> (\<open>None\<close> when \<open>svg2png\<close> raises),
  \<open>ImageColor.getrgb\<close> for a colour without alpha, and the blending of one destination
  pixel with one source pixel that \<open>Image.paste\<close> performs under the source's alpha.
\<close>

record env =
  path_exists :: "string \<Rightarrow> bool"
  svg2png :: "string \<Rightarrow> nat \<Rightarrow> nat \<Rightarrow> image option"
  getrgb :: "string \<Rightarrow> nat \<times> nat \<times> nat"
  blend :: "pixel \<Rightarrow> pixel \<Rightarrow> pixel"

text \<open>\<open>Image.new('RGBA', size, pixel)\<close>.\<close>

definition new_image :: "nat \<times> nat \<Rightarrow> pixel \<Rightarrow> image" where
  "new_image sz px = \<lparr>im_size = sz, im_data = replicate (fst sz * snd sz) px\<rparr>"

text \<open>
  \<open>create_background\<close>: a canvas of the colour \<open>color\<close>; a colour without alpha is opaque.
\<close>

definition create_background :: "env \<Rightarrow> nat \<Rightarrow> string \<Rightarrow> image" where
  "create_background e icon_size color =
     (case getrgb e color of (r, g, b) \<Rightarrow> new_image (icon_size, icon_size) (r, g, b, 255))"

text \<open>
  A Python \<open>float\<close> of the normal range is \<open>m * 2 ^ e\<close> with a mantissa below \<open>2 ^ 53\<close>;
  the pair \<open>(m, e)\<close> stands for it. \<open>float_mul_int n x\<close> is the product \<open>n * x\<close> of an
  \<open>int\<close> (below \<open>2 ^ 53\<close>, so converted exactly) and a float: the exact product rounded
  to 53 bits, ties to even. \<open>int_of_float\<close> is \<open>int()\<close>, which truncates. Only
  non-negative values occur.
\<close>

type_synonym pyfloat = "nat \<times> int"

fun bit_length :: "nat \<Rightarrow> nat" where
  "bit_length n = (if n = 0 then 0 else Suc (bit_length (n div 2)))"

declare bit_length.simps [simp del]

definition round53 :: "pyfloat \<Rightarrow> pyfloat" where
  "round53 x =
     (case x of (p, e) \<Rightarrow>
        if bit_length p \<le> 53 then (p, e)
        else
          (let k = bit_length p - 53;
               q = p div 2 ^ k;
               r = p mod 2 ^ k;
               half = 2 ^ (k - 1)
           in (if half < r \<or> (r = half \<and> odd q) then q + 1 else q, e + int k)))"

definition float_mul_int :: "nat \<Rightarrow> pyfloat \<Rightarrow> pyfloat" where
  "float_mul_int n x = (case x of (m, e) \<Rightarrow> round53 (n * m, e))"

definition int_of_float :: "pyfloat \<Rightarrow> nat" where
  "int_of_float x = (case x of (m, e) \<Rightarrow> if 0 \<le> e then m * 2 ^ nat e else m div 2 ^ nat (- e))"

text \<open>The constants of the script: \<open>ICON_SIZE = 432\<close> and \<open>ICON_SCALE = 0.4\<close>,
  the float \<open>0x1.999999999999ap-2\<close>.\<close>

definition ICON_SIZE :: nat where
  "ICON_SIZE = 432"

definition ICON_SCALE :: pyfloat where
  "ICON_SCALE = (7205759403792794, - 54)"

text \<open>\<open>icon_actual_size = int(icon_size * icon_scale)\<close>.\<close>

definition icon_actual_size :: "nat \<Rightarrow> pyfloat \<Rightarrow> nat" where
  "icon_actual_size icon_size icon_scale = int_of_float (float_mul_int icon_size icon_scale)"

text \<open>\<open>paste_x = (icon_size - icon_actual_size) // 2\<close>, and the same for \<open>paste_y\<close>.\<close>

definition paste_offset :: "nat \<Rightarrow> nat \<Rightarrow> int" where
  "paste_offset icon_size actual = (int icon_size - int actual) div 2"

text \<open>
  \<open>final_icon.paste(icon, (x, y), icon)\<close>: the pixels of the canvas that lie under the
  icon placed with its upper left corner at \<open>(x, y)\<close> are blended with the icon's pixels;
  the others are kept. The size of the canvas does not change.
\<close>

definition in_box :: "int \<times> int \<Rightarrow> nat \<times> nat \<Rightarrow> nat \<Rightarrow> nat \<Rightarrow> bool" where
  "in_box pos sz cx cy \<longleftrightarrow>
     fst pos \<le> int cx \<and> int cx < fst pos + int (fst sz)
     \<and> snd pos \<le> int cy \<and> int cy < snd pos + int (snd sz)"

definition paste :: "env \<Rightarrow> image \<Rightarrow> image \<Rightarrow> int \<times> int \<Rightarrow> image" where
  "paste e canvas icon pos =
     canvas\<lparr>im_data :=
       map (\<lambda>k.
              let cx = k mod fst (im_size canvas); cy = k div fst (im_size canvas)
              in if in_box pos (im_size icon) cx cy
                 then blend e (im_data canvas ! k)
                        (im_data icon ! (nat (int cy - snd pos) * fst (im_size icon)
                                          + nat (int cx - fst pos)))
                 else im_data canvas ! k)
           [0 ..< length (im_data canvas)]\<rparr>"

text \<open>\<open>str.upper()\<close> on the letters of ASCII.\<close>

definition upper :: "string \<Rightarrow> string" where
  "upper s = map (\<lambda>c. if CHR ''a'' \<le> c \<and> c \<le> CHR ''z'' then char_of (of_char c - (32::nat)) else c) s"

text \<open>
  The recolouring at the end of \<open>process_svg\<close>: unless the colour is \<open>#000000\<close>, every
  pixel whose alpha is not zero gets the colour, with its own alpha.
\<close>

definition recolor_pixel :: "nat \<times> nat \<times> nat \<Rightarrow> pixel \<Rightarrow> pixel" where
  "recolor_pixel fg_color_rgb item =
     (case item of (r, g, b, a) \<Rightarrow>
        if a \<noteq> 0 then (case fg_color_rgb of (fr, fg, fb) \<Rightarrow> (fr, fg, fb, a)) else item)"

definition colorize :: "env \<Rightarrow> string \<Rightarrow> image \<Rightarrow> image" where
  "colorize e fg_color final_icon =
     (if upper fg_color \<noteq> ''#000000''
      then final_icon\<lparr>im_data := map (recolor_pixel (getrgb e fg_color)) (im_data final_icon)\<rparr>
      else final_icon)"

text \<open>
  The first part of \<open>process_svg\<close> after a successful rasterization: the transparent
  canvas with the icon pasted at \<open>(paste_x, paste_y)\<close>.
\<close>

definition pasted_canvas :: "env \<Rightarrow> image \<Rightarrow> nat \<Rightarrow> nat \<Rightarrow> image" where
  "pasted_canvas e icon icon_size actual =
     (let final_icon = new_image (icon_size, icon_size) (0, 0, 0, 0);
          paste_x = paste_offset icon_size actual;
          paste_y = paste_offset icon_size actual
      in paste e final_icon icon (paste_x, paste_y))"

text \<open>\<open>process_svg\<close>; \<open>None\<close> is the \<open>None\<close> returned when \<open>svg2png\<close> raises.\<close>

definition process_svg :: "env \<Rightarrow> string \<Rightarrow> string \<Rightarrow> nat \<Rightarrow> pyfloat \<Rightarrow> image option" where
  "process_svg e svg_path fg_color icon_size icon_scale =
     (let actual = icon_actual_size icon_size icon_scale
      in case svg2png e svg_path actual actual of
           None \<Rightarrow> None
         | Some icon \<Rightarrow> Some (colorize e fg_color (pasted_canvas e icon icon_size actual)))"

text \<open>
  \<open>parse_icon_mapper\<close>: the dictionary from package to drawable of the items that have
  both attributes non-empty, as a list in insertion order.
\<close>

definition mapper_step :: "(string \<times> string) list \<Rightarrow> attrs \<Rightarrow> (string \<times> string) list" where
  "mapper_step d item =
     (case (map_of item ''package'', map_of item ''drawable'') of
        (Some package, Some drawable) \<Rightarrow>
          if package \<noteq> [] \<and> drawable \<noteq> [] then dict_set package drawable d else d
      | _ \<Rightarrow> d)"

definition parse_icon_mapper :: "element list \<Rightarrow> (string \<times> string) list" where
  "parse_icon_mapper children = foldl mapper_step [] (findall ''item'' children)"

text \<open>
  The output directory: for each package directory its files. Directories are
  identified by the package name, files by their name. \<open>mkdir\<close> is
  \<open>icon_dir.mkdir(exist_ok=True)\<close>; \<open>save_png\<close> writes or overwrites one file of a
  directory that exists.
\<close>

type_synonym out_dir = "(string \<times> image) list"
type_synonym out_tree = "(string \<times> out_dir) list"

definition mkdir :: "out_tree \<Rightarrow> string \<Rightarrow> out_tree" where
  "mkdir tree name = (case map_of tree name of None \<Rightarrow> tree @ [(name, [])] | Some d \<Rightarrow> tree)"

definition save_png :: "out_tree \<Rightarrow> string \<Rightarrow> string \<Rightarrow> image \<Rightarrow> out_tree" where
  "save_png tree name file img =
     (case map_of tree name of
        None \<Rightarrow> tree
      | Some d \<Rightarrow> dict_set name (dict_set file img d) tree)"

text \<open>
  What a run does, in order: directories made, files saved, rasterizations attempted,
  and the messages printed for a missing asset, a rasterization error, progress and
  failure.
\<close>

datatype event =
    Mkdir string
  | Save string string
  | Rasterize string
  | Print_missing string string
  | Print_error string
  | Print_progress nat nat string string
  | Print_failed string string

text \<open>
  The body of the loop of \<open>generate_icons\<close> over \<open>mapper.items()\<close>; the state is the
  output directory, the events so far and \<open>processed_count\<close>.
\<close>

definition svg_path_of :: "string \<Rightarrow> string \<Rightarrow> string" where
  "svg_path_of svg_dir drawable_name = svg_dir @ ''/'' @ drawable_name @ ''.svg''"

definition generate_step ::
  "env \<Rightarrow> string \<Rightarrow> string \<Rightarrow> nat \<Rightarrow> pyfloat \<Rightarrow> image \<Rightarrow> nat
     \<Rightarrow> out_tree \<times> event list \<times> nat \<Rightarrow> string \<times> string \<Rightarrow> out_tree \<times> event list \<times> nat" where
  "generate_step e svg_dir fg_color icon_size icon_scale background total_icons st entry =
     (case st of (tree, events, processed_count) \<Rightarrow>
      case entry of (package_name, drawable_name) \<Rightarrow>
        (let svg_path = svg_path_of svg_dir drawable_name
         in if \<not> path_exists e svg_path
            then (tree, events @ [Print_missing drawable_name package_name], processed_count)
            else
              (let tree = mkdir tree package_name;
                   tree = save_png tree package_name ''0.png'' background;
                   events = events @ [Mkdir package_name, Save package_name ''0.png'',
                                      Rasterize svg_path]
               in case process_svg e svg_path fg_color icon_size icon_scale of
                    Some icon \<Rightarrow>
                      (save_png tree package_name ''1.png'' icon,
                       events @ [Save package_name ''1.png'',
                                 Print_progress (processed_count + 1) total_icons
                                   drawable_name package_name],
                       processed_count + 1)
                  | None \<Rightarrow>
                      (tree,
                       events @ [Print_error svg_path, Print_failed drawable_name package_name],
                       processed_count))))"

text \<open>
  \<open>generate_icons\<close>. \<open>tree\<close> is the content of the output directory before the call
  (empty when the directory is created by the call); \<open>icon_mapper\<close> is the parsed
  mapping file.
\<close>

definition generate_icons ::
  "env \<Rightarrow> element list \<Rightarrow> string \<Rightarrow> out_tree \<Rightarrow> string \<Rightarrow> string \<Rightarrow> nat \<Rightarrow> pyfloat
     \<Rightarrow> out_tree \<times> event list \<times> nat" where
  "generate_icons e icon_mapper svg_dir tree fg_color bg_color icon_size icon_scale =
     (let mapper = parse_icon_mapper icon_mapper;
          background = create_background e icon_size bg_color;
          total_icons = length mapper
      in foldl (generate_step e svg_dir fg_color icon_size icon_scale background total_icons)
           (tree, [], 0) mapper)"

text \<open>
  The files of one package directory after its entry has been processed, from the
  files before (\<open>None\<close>: no directory). Used to state the effect of a run on one package.
\<close>

definition step_dir ::
  "env \<Rightarrow> string \<Rightarrow> string \<Rightarrow> nat \<Rightarrow> pyfloat \<Rightarrow> image \<Rightarrow> out_dir option \<Rightarrow> string
     \<Rightarrow> out_dir option" where
  "step_dir e svg_dir fg_color icon_size icon_scale background od drawable_name =
     (if \<not> path_exists e (svg_path_of svg_dir drawable_name) then od
      else
        (let d0 = dict_set ''0.png'' background (case od of None \<Rightarrow> [] | Some d \<Rightarrow> d)
         in case process_svg e (svg_path_of svg_dir drawable_name) fg_color icon_size icon_scale of
              Some icon \<Rightarrow> Some (dict_set ''1.png'' icon d0)
            | None \<Rightarrow> Some d0))"

text \<open>The events that the loop body adds for one entry, read off \<open>generate_step\<close>.\<close>

definition step_events ::
  "env \<Rightarrow> string \<Rightarrow> string \<Rightarrow> nat \<Rightarrow> pyfloat \<Rightarrow> nat \<Rightarrow> nat \<Rightarrow> string \<times> string \<Rightarrow> event list" where
  "step_events e svg_dir fg_color icon_size icon_scale total_icons processed_count entry =
     (case entry of (package_name, drawable_name) \<Rightarrow>
        if \<not> path_exists e (svg_path_of svg_dir drawable_name)
        then [Print_missing drawable_name package_name]
        else [Mkdir package_name, Save package_name ''0.png'',
              Rasterize (svg_path_of svg_dir drawable_name)]
             @ (case process_svg e (svg_path_of svg_dir drawable_name) fg_color icon_size
                       icon_scale of
                  Some icon \<Rightarrow>
                    [Save package_name ''1.png'',
                     Print_progress (processed_count + 1) total_icons drawable_name package_name]
                | None \<Rightarrow>
                    [Print_error (svg_path_of svg_dir drawable_name),
                     Print_failed drawable_name package_name]))"

text \<open>
  The colours of the script, and environments for the examples: in \<open>failing_env\<close> every
  asset exists and no rasterization succeeds; in \<open>opaque_env\<close> every asset exists and
  rasterizes to an opaque black square of the size asked for; in \<open>empty_env\<close> no asset
  exists. \<open>one_entry\<close> is a mapping file with one item.
\<close>

definition FG_COLOR :: string where
  "FG_COLOR = ''#d1e2fc''"

definition BG_COLOR :: string where
  "BG_COLOR = ''#1c232b''"

definition example_getrgb :: "string \<Rightarrow> nat \<times> nat \<times> nat" where
  "example_getrgb c = (if c = ''#d1e2fc'' then (209, 226, 252)
                       else if c = ''#1c232b'' then (28, 35, 43) else (0, 0, 0))"

definition failing_env :: env where
  "failing_env = \<lparr>path_exists = (\<lambda>p. True), svg2png = (\<lambda>p w h. None),
                   getrgb = example_getrgb, blend = (\<lambda>dst src. src)\<rparr>"

definition opaque_env :: env where
  "opaque_env = \<lparr>path_exists = (\<lambda>p. True),
                  svg2png = (\<lambda>p w h. Some (new_image (w, h) (0, 0, 0, 255))),
                  getrgb = example_getrgb, blend = (\<lambda>dst src. src)\<rparr>"

definition empty_env :: env where
  "empty_env = \<lparr>path_exists = (\<lambda>p. False), svg2png = (\<lambda>p w h. None),
                 getrgb = example_getrgb, blend = (\<lambda>dst src. src)\<rparr>"

definition one_entry :: "element list" where
  "one_entry = [(''item'', [(''name'', ''B''), (''package'', ''org.b''), (''drawable'', ''b'')])]"

text \<open>
  An environment whose rasterizer returns a glyph of two by two pixels: one opaque, one
  half transparent, two fully transparent.
\<close>

definition glyph :: image where
  "glyph = \<lparr>im_size = (2, 2),
             im_data = [(0, 0, 0, 255), (0, 0, 0, 0), (10, 20, 30, 128), (0, 0, 0, 0)]\<rparr>"

definition glyph_env :: env where
  "glyph_env = \<lparr>path_exists = (\<lambda>p. True), svg2png = (\<lambda>p w h. Some glyph),
                 getrgb = example_getrgb, blend = (\<lambda>dst src. src)\<rparr>"

subsection \<open>ThemePacker\<close>

text \<open>
  The bytes of a file: plain data, a generated image, the archive that \<open>zipfile\<close> writes
  for a list of entries \<open>(arcname, bytes)\<close>, or what is on disk of an archive that is
  still being written when the entries listed have been added. A directory is the list
  of its entries in listing order; a node is a file or a directory.
\<close>

datatype content =
    Data string
  | Png image
  | Zip "(string \<times> content) list"
  | Partial_zip "(string \<times> content) list"

datatype node = File content | Dir "(string \<times> node) list"

type_synonym dir = "(string \<times> node) list"

datatype os_error = NotADirectoryError | IsADirectoryError

text \<open>
  \<open>os.path.join(root, name)\<close> for a name that comes from a directory listing (not empty,
  no separator in it): the separator is added unless \<open>root\<close> is empty or ends with one.
\<close>

definition os_join :: "string \<Rightarrow> string \<Rightarrow> string" where
  "os_join root name =
     (if root = [] \<or> last root = CHR ''/'' then root @ name else root @ CHR ''/'' # name)"

text \<open>\<open>needle in haystack\<close> for strings.\<close>

fun contains :: "string \<Rightarrow> string \<Rightarrow> bool" where
  "contains [] needle = (needle = [])"
| "contains (c # cs) needle = (startswith (c # cs) needle \<or> contains cs needle)"

text \<open>
  \<open>os.walk(top)\<close>, top down: for each directory its path as \<open>os.walk\<close> builds it, its
  position relative to \<open>top\<close>, and its files; then the same for its subdirectories.
\<close>

definition files_of :: "dir \<Rightarrow> (string \<times> content) list" where
  "files_of d = List.map_filter (\<lambda>(n, x). case x of File b \<Rightarrow> Some (n, b) | Dir c \<Rightarrow> None) d"

fun walk :: "string \<Rightarrow> string list \<Rightarrow> dir \<Rightarrow> (string \<times> string list \<times> (string \<times> content) list) list"
  and walk_subdirs ::
    "string \<Rightarrow> string list \<Rightarrow> dir \<Rightarrow> (string \<times> string list \<times> (string \<times> content) list) list" where
  "walk root rel d = (root, rel, files_of d) # walk_subdirs root rel d"
| "walk_subdirs root rel [] = []"
| "walk_subdirs root rel ((n, File b) # r) = walk_subdirs root rel r"
| "walk_subdirs root rel ((n, Dir c) # r) =
     walk (os_join root n) (rel @ [n]) c @ walk_subdirs root rel r"

text \<open>
  \<open>os.path.relpath(os.path.join(root, file), top)\<close> for a file found by the walk of
  \<open>top\<close>: the names from \<open>top\<close> down to the file, joined by the separator.
\<close>

fun arcname :: "string list \<Rightarrow> string" where
  "arcname [] = []"
| "arcname [n] = n"
| "arcname (n # m # ns) = n @ CHR ''/'' # arcname (m # ns)"

text \<open>
  \<open>pack_magisk_module\<close>: the entries written to the module archive, in order. A
  directory whose path, as walked, contains \<open>icons\<close> is passed over. The archive itself
  is written outside the template, in the working directory, as the pattern of \<open>main\<close>
  places it.
\<close>

definition pack_magisk_module :: "string \<Rightarrow> dir \<Rightarrow> (string \<times> content) list" where
  "pack_magisk_module magisk_template_dir template =
     concat (map (\<lambda>(root, rel, files).
                    if contains root ''icons'' then []
                    else map (\<lambda>(file, b). (arcname (rel @ [file]), b)) files)
                 (walk magisk_template_dir [] template))"

text \<open>
  The first step of \<open>pack_icons_zip\<close>: \<open>res/drawable-xxhdpi\<close> under the icons template is
  removed with \<open>shutil.rmtree\<close> if it exists and made anew with \<open>mkdir(parents=True)\<close>.
  A file in the place of \<open>res\<close> or of \<open>drawable-xxhdpi\<close> makes the step fail.
\<close>

definition reset_drawable_dir :: "dir \<Rightarrow> os_error + dir" where
  "reset_drawable_dir template =
     (case map_of template ''res'' of
        None \<Rightarrow> Inr (template @ [(''res'', Dir [(''drawable-xxhdpi'', Dir [])])])
      | Some (File b) \<Rightarrow> Inl NotADirectoryError
      | Some (Dir res) \<Rightarrow>
          (case map_of res ''drawable-xxhdpi'' of
             None \<Rightarrow> Inr (dict_set ''res'' (Dir (res @ [(''drawable-xxhdpi'', Dir [])])) template)
           | Some (File b) \<Rightarrow> Inl NotADirectoryError
           | Some (Dir old) \<Rightarrow>
               Inr (dict_set ''res'' (Dir (dict_set ''drawable-xxhdpi'' (Dir []) res)) template)))"

text \<open>
  The second step: every directory of the output directory is copied with
  \<open>shutil.copytree\<close> into the fresh \<open>res/drawable-xxhdpi\<close>; files are passed over.
\<close>

definition copy_icons :: "dir \<Rightarrow> dir \<Rightarrow> dir" where
  "copy_icons output template =
     (case map_of template ''res'' of
        Some (Dir res) \<Rightarrow>
          dict_set ''res''
            (Dir (dict_set ''drawable-xxhdpi''
                    (Dir (filter (\<lambda>(n, x). case x of Dir c \<Rightarrow> True | File b \<Rightarrow> False) output))
                    res))
            template
      | _ \<Rightarrow> template)"

text \<open>
  The third step: the entries that the walk of the icons template writes to
  \<open>icons.zip\<close>. The archive is created inside the template before the walk starts, so
  the walk finds it among the files of the top directory; what is read from it is what
  is on disk of the archive at that moment.
\<close>

definition walk_files :: "string \<Rightarrow> dir \<Rightarrow> (string list \<times> content) list" where
  "walk_files top_dir d =
     concat (map (\<lambda>(root, rel, files). map (\<lambda>(file, b). (rel @ [file], b)) files)
                 (walk top_dir [] d))"

definition write_entry ::
  "(string \<times> content) list \<Rightarrow> string list \<times> content \<Rightarrow> (string \<times> content) list" where
  "write_entry written f =
     (case f of (path, b) \<Rightarrow>
        written @ [(arcname path, if path = [''icons.zip''] then Partial_zip written else b)])"

definition icons_zip_entries :: "string \<Rightarrow> dir \<Rightarrow> (string \<times> content) list" where
  "icons_zip_entries icons_template_dir template =
     foldl write_entry [] (walk_files icons_template_dir template)"

text \<open>
  \<open>pack_icons_zip\<close>, on the content of the output directory, of the icons template and
  of the magisk template; the result is the two templates afterwards. The three
  directories exist and are different directories, none inside another, as in \<open>main\<close>.
  Opening \<open>icons.zip\<close> for writing, renaming it to \<open>icons\<close> and copying \<open>icons\<close> into
  the magisk template each fail when a directory has that name.
\<close>

definition pack_icons_zip :: "dir \<Rightarrow> string \<Rightarrow> dir \<Rightarrow> dir \<Rightarrow> os_error + dir \<times> dir" where
  "pack_icons_zip output icons_template_dir icons_template magisk_template =
     (case reset_drawable_dir icons_template of
        Inl err \<Rightarrow> Inl err
      | Inr t1 \<Rightarrow>
          (let t2 = copy_icons output t1
           in case map_of t2 ''icons.zip'' of
                Some (Dir c) \<Rightarrow> Inl IsADirectoryError
              | _ \<Rightarrow>
                  (let t3 = dict_set ''icons.zip'' (File (Partial_zip [])) t2;
                       archive = Zip (icons_zip_entries icons_template_dir t3);
                       t4 = dict_set ''icons.zip'' (File archive) t3
                   in case map_of t4 ''icons'' of
                        Some (Dir c) \<Rightarrow> Inl IsADirectoryError
                      | _ \<Rightarrow>
                          (let t5 = dict_set ''icons'' (File archive)
                                      (filter (\<lambda>(n, x). n \<noteq> ''icons.zip'') t4)
                           in case map_of magisk_template ''icons'' of
                                Some (Dir c) \<Rightarrow> Inl IsADirectoryError
                              | _ \<Rightarrow>
                                  Inr (t5, dict_set ''icons'' (File archive) magisk_template)))))"

text \<open>
  The files of a directory tree: each with the names of the directories from the top
  down to its directory, its own name and its bytes.
\<close>

fun all_files :: "string list \<Rightarrow> dir \<Rightarrow> (string list \<times> string \<times> content) list" where
  "all_files rel [] = []"
| "all_files rel ((n, File b) # r) = (rel, n, b) # all_files rel r"
| "all_files rel ((n, Dir c) # r) = all_files (rel @ [n]) c @ all_files rel r"

text \<open>Small directories for the examples.\<close>

definition example_output :: dir where
  "example_output = [(''org.b'', Dir [(''0.png'', File (Data ''bg'')), (''1.png'', File (Data ''fg''))])]"

definition example_icons_template :: dir where
  "example_icons_template = [(''transform_config.xml'', File (Data ''cfg''))]"

definition example_magisk_template :: dir where
  "example_magisk_template =
     [(''module.prop'', File (Data ''prop'')),
      (''META-INF'', Dir [(''update-binary'', File (Data ''sh''))])]"

text \<open>
  The files that the loop of \<open>pack_magisk_module\<close> writes, each with the position of its
  directory, before the archive name is formed.
\<close>

definition kept_of ::
  "(string \<times> string list \<times> (string \<times> content) list) list \<Rightarrow> (string list \<times> string \<times> content) list" where
  "kept_of ws =
     concat (map (\<lambda>(root, rel, files).
                    if contains root ''icons'' then []
                    else map (\<lambda>(file, b). (rel, file, b)) files) ws)"

text \<open>
  The two calls of \<open>main\<close> in their order: \<open>pack_icons_zip\<close>, then \<open>pack_magisk_module\<close> on
  the magisk template as the first call leaves it. The result is the file \<open>icons\<close> of
  the icons template, the intermediate archive, and the entries of the module archive.
\<close>

definition run_packers ::
  "dir \<Rightarrow> string \<Rightarrow> dir \<Rightarrow> string \<Rightarrow> dir \<Rightarrow> os_error + node option \<times> (string \<times> content) list" where
  "run_packers output icons_template_dir icons_template magisk_template_dir magisk_template =
     (case pack_icons_zip output icons_template_dir icons_template magisk_template of
        Inl err \<Rightarrow> Inl err
      | Inr (t, m) \<Rightarrow> Inr (map_of t ''icons'', pack_magisk_module magisk_template_dir m))"

definition example_archive :: content where
  "example_archive =
     Zip [(''transform_config.xml'', Data ''cfg''),
          (''icons.zip'', Partial_zip [(''transform_config.xml'', Data ''cfg'')]),
          (''res/drawable-xxhdpi/org.b/0.png'', Data ''bg''),
          (''res/drawable-xxhdpi/org.b/1.png'', Data ''fg'')]"

definition magisk_with_icons :: dir where
  "magisk_with_icons =
     [(''module.prop'', File (Data ''prop'')),
      (''icons'', File example_archive),
      (''icons_old'', Dir [(''a.txt'', File (Data ''a''))])]"


section \<open>Properties\<close>

subsection \<open>Mapping table\<close>

lemma dict_set_keys: "fst ` set (dict_set k v d) = insert k (fst ` set d)"
  by (induction d) auto

lemma dict_set_map_of: "map_of (dict_set k v d) = (map_of d)(k \<mapsto> v)"
  by (induction d) (auto simp: fun_eq_iff)

lemma dict_set_distinct: "distinct (map fst d) \<Longrightarrow> distinct (map fst (dict_set k v d))"
  by (induction d) (auto simp: dict_set_keys)

lemma strip_prefix_Some: "strip_prefix p s = Some r \<longleftrightarrow> s = p @ r"
  by (induction p s rule: strip_prefix.induct) auto

lemma lazy_tail_intro:
  "CHR 0x0A \<notin> set cls \<Longrightarrow> lazy_tail (cls @ CHR ''}'' # rest)"
  by (induction cls) auto

lemma lazy_tail_elim:
  "lazy_tail s \<Longrightarrow> \<exists>cls rest. s = cls @ CHR ''}'' # rest \<and> CHR 0x0A \<notin> set cls"
proof (induction s)
  case Nil
  then show ?case by simp
next
  case (Cons c s)
  show ?case
  proof (cases "c = CHR ''}''")
    case True
    then have "c # s = [] @ CHR ''}'' # s \<and> CHR 0x0A \<notin> set ([]::string)" by simp
    then show ?thesis by blast
  next
    case False
    with Cons.prems have nl: "c \<noteq> CHR 0x0A" and "lazy_tail s"
      by (auto split: if_splits)
    with Cons.IH obtain cls rest where "s = cls @ CHR ''}'' # rest" "CHR 0x0A \<notin> set cls"
      by blast
    with nl have "c # s = (c # cls) @ CHR ''}'' # rest \<and> CHR 0x0A \<notin> set (c # cls)"
      by simp
    then show ?thesis by blast
  qed
qed

lemma lazy_tail_iff:
  "lazy_tail s \<longleftrightarrow> (\<exists>cls rest. s = cls @ CHR ''}'' # rest \<and> CHR 0x0A \<notin> set cls)"
  using lazy_tail_intro lazy_tail_elim by blast

lemma takeWhile_split:
  "x \<notin> set p \<Longrightarrow> takeWhile (\<lambda>c. c \<noteq> x) (p @ x # t) = p \<and> dropWhile (\<lambda>c. c \<noteq> x) (p @ x # t) = x # t"
  by (induction p) auto

lemma parse_component_info_intro:
  assumes "regex_package component p"
  shows "parse_component_info component = p"
proof -
  from assms obtain cls rest where
    c: "component = ''ComponentInfo{'' @ (p @ CHR ''/'' # cls @ CHR ''}'' # rest)"
    and p: "p \<noteq> []" "CHR ''/'' \<notin> set p" and nl: "CHR 0x0A \<notin> set cls"
    unfolding regex_package_def by auto
  have sp: "strip_prefix ''ComponentInfo{'' component = Some (p @ CHR ''/'' # cls @ CHR ''}'' # rest)"
    unfolding strip_prefix_Some using c .
  show ?thesis
    unfolding parse_component_info_def sp
    using p lazy_tail_intro[OF nl, of rest]
    by (simp add: takeWhile_split Let_def)
qed

lemma parse_component_info_elim:
  assumes "parse_component_info component \<noteq> []"
  shows "regex_package component (parse_component_info component)"
proof -
  from assms obtain r where sp: "strip_prefix ''ComponentInfo{'' component = Some r"
    unfolding parse_component_info_def by (auto split: option.splits)
  define g where "g = takeWhile (\<lambda>c. c \<noteq> CHR ''/'') r"
  define t where "t = dropWhile (\<lambda>c. c \<noteq> CHR ''/'') r"
  from assms sp have g: "g \<noteq> []" and t: "t \<noteq> []" and lt: "lazy_tail (tl t)"
    and res: "parse_component_info component = g"
    unfolding parse_component_info_def g_def t_def by (auto simp: Let_def split: if_splits)
  have r: "r = g @ t" unfolding g_def t_def by simp
  have "\<not> (hd t \<noteq> CHR ''/'')"
    using t unfolding t_def by (rule hd_dropWhile)
  with t have t': "t = CHR ''/'' # tl t" by (cases t) simp_all
  from lt obtain cls rest where tl: "tl t = cls @ CHR ''}'' # rest" "CHR 0x0A \<notin> set cls"
    using lazy_tail_elim by blast
  have ng: "CHR ''/'' \<notin> set g" unfolding g_def by (auto dest: set_takeWhileD)
  from sp have "component = ''ComponentInfo{'' @ r" unfolding strip_prefix_Some .
  with r t' tl have "component = ''ComponentInfo{'' @ g @ CHR ''/'' # cls @ CHR ''}'' # rest"
    by simp
  with g ng tl(2) show ?thesis unfolding res regex_package_def by blast
qed

lemma dedup_step_row:
  "dedup_step d item = (case row_of_item item of None \<Rightarrow> d | Some (p, v) \<Rightarrow> dict_set p v d)"
  by (simp add: dedup_step_def row_of_item_def Let_def)

lemma foldl_dedup_distinct:
  "distinct (map fst d) \<Longrightarrow> distinct (map fst (foldl dedup_step d items))"
  by (induction items arbitrary: d)
     (auto simp: dedup_step_row dict_set_distinct split: option.splits)

lemma map_add_rev_Cons:
  "m ++ map_of (rev ((p, v) # xs)) = m(p \<mapsto> v) ++ map_of (rev xs)"
  by (rule ext) (simp add: map_add_def split: option.splits)

lemma foldl_dedup_map_of:
  "map_of (foldl dedup_step d items) = map_of d ++ map_of (rev (List.map_filter row_of_item items))"
proof (induction items arbitrary: d)
  case Nil
  show ?case by (simp add: map_filter_simps)
next
  case (Cons item items)
  show ?case
  proof (cases "row_of_item item")
    case None
    have step: "dedup_step d item = d" using None by (simp add: dedup_step_row)
    have mf: "List.map_filter row_of_item (item # items) = List.map_filter row_of_item items"
      using None by (simp add: map_filter_simps)
    show ?thesis by (simp only: foldl_Cons step mf Cons.IH)
  next
    case (Some r)
    obtain p v where r: "r = (p, v)" by (cases r)
    have step: "dedup_step d item = dict_set p v d" using Some r by (simp add: dedup_step_row)
    have mf: "List.map_filter row_of_item (item # items) = (p, v) # List.map_filter row_of_item items"
      using Some r by (simp add: map_filter_simps)
    show ?thesis
      by (simp only: foldl_Cons step mf Cons.IH dict_set_map_of map_add_rev_Cons)
  qed
qed

lemma unique_packages_map_of:
  "map_of (unique_packages_of t) = map_of (rev (kept_rows t))"
  by (simp add: unique_packages_of_def kept_rows_def foldl_dedup_map_of)

lemma unique_packages_distinct: "distinct (map fst (unique_packages_of t))"
  by (simp add: unique_packages_of_def foldl_dedup_distinct)

lemma map_of_rev_last:
  "map_of (rev xs) p = Some v \<longleftrightarrow>
     filter (\<lambda>e. fst e = p) xs \<noteq> [] \<and> last (filter (\<lambda>e. fst e = p) xs) = (p, v)"
proof (induction xs rule: rev_induct)
  case Nil
  then show ?case by simp
next
  case (snoc x xs)
  then show ?case by (cases x) auto
qed

lemma sorted_fst: "sorted (xs :: ('a::linorder \<times> 'b::linorder) list) \<Longrightarrow> sorted (map fst xs)"
  by (induction xs) (auto simp: less_eq_prod_def)

lemma normalized_rows_set: "set (normalized_rows t) = set (unique_packages_of t)"
  by (simp add: normalized_rows_def)

lemma normalized_rows_distinct: "distinct (map fst (normalized_rows t))"
  using unique_packages_distinct[of t]
  by (simp add: normalized_rows_def distinct_map)

lemma normalized_rows_mem:
  "(p, v) \<in> set (normalized_rows t) \<longleftrightarrow> map_of (rev (kept_rows t)) p = Some v"
  using unique_packages_distinct[of t]
  by (simp add: normalized_rows_set unique_packages_map_of[symmetric])

lemma normalized_rows_keys: "fst ` set (normalized_rows t) = fst ` set (kept_rows t)"
proof -
  have "fst ` set (normalized_rows t) = dom (map_of (unique_packages_of t))"
    by (simp add: normalized_rows_set dom_map_of_conv_image_fst)
  also have "\<dots> = dom (map_of (rev (kept_rows t)))"
    by (simp add: unique_packages_map_of)
  also have "\<dots> = fst ` set (kept_rows t)"
    by (simp add: dom_map_of_conv_image_fst)
  finally show ?thesis .
qed

lemma example_rows:
  "normalized_rows example_table
     = [(''com.example.app'', ''Two'', ''second''), (''org.b'', ''B'', ''b'')]"
  by code_simp

lemma example_kept:
  "kept_rows example_table
     = [(''org.b'', ''B'', ''b''), (''com.example.app'', ''One'', ''first''),
        (''com.example.app'', ''Two'', ''second'')]"
  by code_simp

text \<open>
  Claim C1. The rows of the normalized table carry pairwise different packages; they are
  sorted by package in the order of Python strings; the packages of the rows are exactly
  the packages extracted from the source items that are kept; and a row \<open>(p, n, d)\<close> is
  in the table exactly when the last kept source item with package \<open>p\<close>, in document
  order, has name \<open>n\<close> and drawable \<open>d\<close>.
\<close>

theorem convert_icon_mapper_dedup_sorted:
  "distinct (map fst (normalized_rows t))
   \<and> sorted (map fst (normalized_rows t))
   \<and> fst ` set (normalized_rows t) = fst ` set (kept_rows t)
   \<and> (\<forall>p n d. (p, n, d) \<in> set (normalized_rows t) \<longleftrightarrow>
         filter (\<lambda>e. fst e = p) (kept_rows t) \<noteq> []
         \<and> last (filter (\<lambda>e. fst e = p) (kept_rows t)) = (p, n, d))"
proof (intro conjI allI)
  show "distinct (map fst (normalized_rows t))" by (rule normalized_rows_distinct)
  show "sorted (map fst (normalized_rows t))"
    by (rule sorted_fst) (simp add: normalized_rows_def)
  show "fst ` set (normalized_rows t) = fst ` set (kept_rows t)"
    by (rule normalized_rows_keys)
  fix p n d
  show "(p, n, d) \<in> set (normalized_rows t) \<longleftrightarrow>
         filter (\<lambda>e. fst e = p) (kept_rows t) \<noteq> []
         \<and> last (filter (\<lambda>e. fst e = p) (kept_rows t)) = (p, n, d)"
    by (simp only: normalized_rows_mem map_of_rev_last)
qed

text \<open>
  The table of the specification's example, with a second package: two items share
  \<open>ComponentInfo{com.example.app/.MainActivity}\<close>, and the later one is kept.
\<close>

theorem convert_icon_mapper_dedup_sorted_witness:
  "normalized_rows example_table
     = [(''com.example.app'', ''Two'', ''second''), (''org.b'', ''B'', ''b'')]
   \<and> distinct (map fst (normalized_rows example_table))
   \<and> sorted (map fst (normalized_rows example_table))
   \<and> (''com.example.app'', ''Two'', ''second'') \<in> set (normalized_rows example_table)
   \<and> filter (\<lambda>e. fst e = ''com.example.app'') (kept_rows example_table)
        = [(''com.example.app'', ''One'', ''first''), (''com.example.app'', ''Two'', ''second'')]
   \<and> last (filter (\<lambda>e. fst e = ''com.example.app'') (kept_rows example_table))
        = (''com.example.app'', ''Two'', ''second'')"
  using convert_icon_mapper_dedup_sorted [of example_table]
  by (simp add: example_rows example_kept)

lemma map_filter_append:
  "List.map_filter f (xs @ ys) = List.map_filter f xs @ List.map_filter f ys"
  by (simp add: List.map_filter_def)

lemma regex_package_nonempty: "regex_package c p \<Longrightarrow> p \<noteq> []"
  by (auto simp: regex_package_def)

lemma findall_append: "findall tag (xs @ ys) = findall tag xs @ findall tag ys"
  by (simp add: findall_def)

lemma findall_Nil: "findall tag [] = []"
  by (simp add: findall_def)

lemma findall_item_Cons: "findall ''item'' ((''item'', a) # ys) = a # findall ''item'' ys"
  by (simp add: findall_def)

lemma skipped_item_rows:
  assumes "row_of_item a = None"
  shows "normalized_rows (xs @ (''item'', a) # ys) = normalized_rows (xs @ ys)"
proof -
  have "dedup_step d a = d" for d using assms by (simp add: dedup_step_row)
  then show ?thesis
    by (simp only: normalized_rows_def unique_packages_of_def findall_append findall_item_Cons
        foldl_append foldl_Cons)
qed

lemma kept_item_rows:
  assumes "row_of_item a = Some (p, v)"
  shows "p \<in> fst ` set (normalized_rows (xs @ (''item'', a) # ys))"
proof -
  have "(p, v) \<in> set (kept_rows (xs @ (''item'', a) # ys))"
    using assms
    by (simp add: kept_rows_def findall_append findall_item_Cons map_filter_append)
  then have "fst (p, v) \<in> fst ` set (kept_rows (xs @ (''item'', a) # ys))"
    by (rule imageI)
  then show ?thesis by (simp only: normalized_rows_keys fst_conv)
qed

lemma row_of_item_None_iff:
  "row_of_item a = None \<longleftrightarrow>
     get_attr a ''component'' [] = [] \<or> get_attr a ''drawable'' [] = []
     \<or> \<not> (\<exists>p. regex_package (get_attr a ''component'' []) p)"
proof -
  have "parse_component_info c = [] \<longleftrightarrow> \<not> (\<exists>p. regex_package c p)" for c
  proof
    assume e: "parse_component_info c = []"
    show "\<not> (\<exists>p. regex_package c p)"
    proof
      assume "\<exists>p. regex_package c p"
      then obtain p where p: "regex_package c p" ..
      then have "parse_component_info c = p" by (rule parse_component_info_intro)
      moreover from p have "p \<noteq> []" by (rule regex_package_nonempty)
      ultimately show False using e by simp
    qed
  next
    assume "\<not> (\<exists>p. regex_package c p)"
    then show "parse_component_info c = []"
      using parse_component_info_elim[of c] by blast
  qed
  note pe = this
  have "row_of_item a = None \<longleftrightarrow>
     get_attr a ''component'' [] = [] \<or> get_attr a ''drawable'' [] = []
     \<or> parse_component_info (get_attr a ''component'' []) = []"
    by (simp add: row_of_item_def Let_def)
  then show ?thesis by (simp only: pe)
qed

lemma kept_item_row:
  assumes "get_attr a ''component'' [] \<noteq> []" "get_attr a ''drawable'' [] \<noteq> []"
    and "regex_package (get_attr a ''component'' []) p"
  shows "row_of_item a = Some (p, get_attr a ''name'' [], get_attr a ''drawable'' [])"
proof -
  have pc: "parse_component_info (get_attr a ''component'' []) = p"
    using assms(3) by (rule parse_component_info_intro)
  have "p \<noteq> []" using assms(3) by (rule regex_package_nonempty)
  then show ?thesis
    unfolding row_of_item_def Let_def pc using assms(1,2) by simp
qed

lemma kept_rows_snoc:
  assumes "row_of_item a = Some r"
  shows "kept_rows (xs @ [(''item'', a)]) = kept_rows xs @ [r]"
  using assms
  by (simp add: kept_rows_def findall_append findall_item_Cons findall_Nil map_filter_append)

lemma last_item_row:
  assumes "row_of_item a = Some (p, v)"
  shows "(p, v) \<in> set (normalized_rows (xs @ [(''item'', a)]))"
proof -
  have "map_of (rev (kept_rows xs @ [(p, v)])) p = Some v" by simp
  then show ?thesis
    by (simp only: normalized_rows_mem kept_rows_snoc[OF assms])
qed

text \<open>
  Claim C9, as amended. A source item whose component is empty, whose drawable is empty,
  or whose component the regular expression does not match (it needs \<open>ComponentInfo{\<close>,
  a non-empty package up to the first \<open>/\<close>, and a closing brace after that \<open>/\<close> with
  no line feed before it) leaves the normalized table as it is without the item. Any
  other item with package \<open>p\<close> gives the package \<open>p\<close> a row, and that row carries the
  item's own name and drawable when the item is the last of the table.
\<close>

theorem item_skipped_iff:
  "((get_attr a ''component'' [] = [] \<or> get_attr a ''drawable'' [] = []
      \<or> \<not> (\<exists>p. regex_package (get_attr a ''component'' []) p))
     \<longrightarrow> normalized_rows (xs @ (''item'', a) # ys) = normalized_rows (xs @ ys))
   \<and> (get_attr a ''component'' [] \<noteq> [] \<and> get_attr a ''drawable'' [] \<noteq> []
      \<and> regex_package (get_attr a ''component'' []) p
     \<longrightarrow> (p, get_attr a ''name'' [], get_attr a ''drawable'' [])
               \<in> set (normalized_rows (xs @ [(''item'', a)]))
         \<and> p \<in> fst ` set (normalized_rows (xs @ (''item'', a) # ys)))"
proof (intro conjI impI)
  assume "get_attr a ''component'' [] = [] \<or> get_attr a ''drawable'' [] = []
      \<or> \<not> (\<exists>p. regex_package (get_attr a ''component'' []) p)"
  then have "row_of_item a = None" by (simp only: row_of_item_None_iff)
  then show "normalized_rows (xs @ (''item'', a) # ys) = normalized_rows (xs @ ys)"
    by (rule skipped_item_rows)
next
  assume h: "get_attr a ''component'' [] \<noteq> [] \<and> get_attr a ''drawable'' [] \<noteq> []
      \<and> regex_package (get_attr a ''component'' []) p"
  then have r: "row_of_item a = Some (p, get_attr a ''name'' [], get_attr a ''drawable'' [])"
    by (blast intro: kept_item_row)
  show "p \<in> fst ` set (normalized_rows (xs @ (''item'', a) # ys))"
    using r by (rule kept_item_rows)
  show "(p, get_attr a ''name'' [], get_attr a ''drawable'' [])
          \<in> set (normalized_rows (xs @ [(''item'', a)]))"
    using r by (rule last_item_row)
qed

lemma example_regex_package:
  "regex_package ''ComponentInfo{com.example.app/.MainActivity}'' ''com.example.app''"
proof -
  have "''ComponentInfo{com.example.app/.MainActivity}''
          = ''ComponentInfo{'' @ ''com.example.app'' @ CHR ''/'' # ''.MainActivity'' @ CHR ''}'' # []
        \<and> ''com.example.app'' \<noteq> [] \<and> CHR ''/'' \<notin> set ''com.example.app''
        \<and> CHR 0x0A \<notin> set ''.MainActivity''"
    by simp
  then show ?thesis unfolding regex_package_def by blast
qed

theorem item_skipped_iff_witness:
  "get_attr skipped_item ''drawable'' [] = []
   \<and> normalized_rows ([] @ (''item'', skipped_item) # example_table)
        = normalized_rows ([] @ example_table)
   \<and> get_attr kept_item ''component'' [] \<noteq> [] \<and> get_attr kept_item ''drawable'' [] \<noteq> []
   \<and> regex_package (get_attr kept_item ''component'' []) ''com.example.app''
   \<and> (''com.example.app'', ''Two'', ''second'')
        \<in> set (normalized_rows (example_table @ [(''item'', kept_item)]))
   \<and> ''com.example.app''
        \<in> fst ` set (normalized_rows (example_table @ (''item'', kept_item) # []))"
proof -
  have s: "get_attr skipped_item ''drawable'' [] = []"
    by (simp add: get_attr_def skipped_item_def)
  have k: "get_attr kept_item ''component'' [] = ''ComponentInfo{com.example.app/.MainActivity}''"
    "get_attr kept_item ''drawable'' [] = ''second''" "get_attr kept_item ''name'' [] = ''Two''"
    by (simp_all add: get_attr_def kept_item_def)
  show ?thesis
    using item_skipped_iff [where a = skipped_item and xs = "[]" and ys = example_table]
      item_skipped_iff [where a = kept_item and p = "''com.example.app''" and xs = example_table
        and ys = "[]"]
      example_regex_package
    by (simp add: s k)
qed

text \<open>
  Claim C9 as stated fails: the component \<open>ComponentInfo{a/b\<close> is not empty, the drawable
  is not empty, and the text between \<open>ComponentInfo{\<close> and the first \<open>/\<close> is \<open>a\<close>; yet
  the item is skipped, because no closing brace follows.
\<close>

theorem item_skipped_counterexample:
  "get_attr unclosed_item ''component'' [] = ''ComponentInfo{a/b''
   \<and> get_attr unclosed_item ''drawable'' [] = ''d''
   \<and> text_between (get_attr unclosed_item ''component'' []) = Some ''a''
   \<and> normalized_rows [(''item'', unclosed_item)] = []"
  by code_simp

subsection \<open>Layout of the written table\<close>

lemma escape_attrib_char_clean:
  "CHR ''>'' \<notin> set (escape_attrib_char c)" "CHR 0x0A \<notin> set (escape_attrib_char c)"
  by (simp_all add: escape_attrib_char_def)

lemma escape_attrib_clean:
  "CHR ''>'' \<notin> set (escape_attrib s)" "CHR 0x0A \<notin> set (escape_attrib s)"
  by (simp_all add: escape_attrib_def escape_attrib_char_clean)

lemma item_markup_seg: "item_markup r = item_seg r @ ''>''"
  by (cases r) (simp add: item_seg_def item_markup_def butlast_append)

lemma item_seg_eq:
  \<open>item_seg (p, n, d) =
     ''<item name="'' @ escape_attrib n @ ''" package="'' @ escape_attrib p
       @ ''" drawable="'' @ escape_attrib d @ ''" /''\<close>
  by (simp add: item_seg_def item_markup_def butlast_append)

lemma item_seg_clean:
  "CHR ''>'' \<notin> set (item_seg r)" "CHR 0x0A \<notin> set (item_seg r)"
  by (cases r; simp add: item_seg_eq escape_attrib_clean)+

lemma split_on_nonempty: "split_on sep s \<noteq> []"
  by (induction s) (auto split: list.splits)

lemma split_on_none: "sep \<notin> set s \<Longrightarrow> split_on sep s = [s]"
  by (induction s) auto

lemma split_on_append:
  "sep \<notin> set s \<Longrightarrow> split_on sep (s @ sep # t) = s # split_on sep t"
  by (induction s) (auto split: list.splits)

lemma tostring_Cons:
  "tostring (r # rs)
     = ''<resources'' @ CHR ''>'' # concat (map (\<lambda>x. item_seg x @ ''>'') (r # rs))
        @ ''</resources'' @ CHR ''>'' # []"
proof -
  have "item_markup = (\<lambda>x. item_seg x @ ''>'')"
    by (rule ext) (rule item_markup_seg)
  then show ?thesis by (simp add: tostring_def)
qed

lemma split_rows:
  "split_on CHR ''>'' (concat (map (\<lambda>x. item_seg x @ ''>'') rs) @ t)
     = map item_seg rs @ split_on CHR ''>'' t"
proof (induction rs)
  case Nil
  show ?case by simp
next
  case (Cons r rs)
  have "split_on CHR ''>''
          (item_seg r @ CHR ''>'' # (concat (map (\<lambda>x. item_seg x @ ''>'') rs) @ t))
        = item_seg r # split_on CHR ''>'' (concat (map (\<lambda>x. item_seg x @ ''>'') rs) @ t)"
    by (rule split_on_append) (rule item_seg_clean)
  then show ?case by (simp add: Cons.IH)
qed

lemma split_tostring:
  "split_on CHR ''>'' (tostring (r # rs))
     = ''<resources'' # map item_seg (r # rs) @ [''</resources'', []]"
proof -
  have a: "split_on CHR ''>'' (''</resources'' @ CHR ''>'' # []) = [''</resources'', []]"
    by simp
  have "split_on CHR ''>'' (tostring (r # rs))
        = ''<resources'' # split_on CHR ''>''
            (concat (map (\<lambda>x. item_seg x @ ''>'') (r # rs)) @ ''</resources'' @ CHR ''>'' # [])"
    unfolding tostring_Cons by (rule split_on_append) simp
  also have "\<dots> = ''<resources'' # map item_seg (r # rs) @ [''</resources'', []]"
    by (simp only: split_rows a)
  finally show ?thesis .
qed

lemma strip_nonempty: "s \<noteq> [] \<Longrightarrow> \<not> is_space (hd s) \<Longrightarrow> strip s \<noteq> []"
proof -
  assume s: "s \<noteq> []" and h: "\<not> is_space (hd s)"
  then have d: "dropWhile is_space s = s" by (cases s) auto
  have "hd s \<in> set (rev s)" using s by simp
  with h have "dropWhile is_space (rev s) \<noteq> []"
    by (metis dropWhile_eq_Nil_conv)
  then show ?thesis by (simp add: strip_def d)
qed

lemma not_space_lt: "\<not> is_space CHR ''<''"
  by (simp add: is_space_def)

lemma endswith_two: "endswith (s @ [a, b]) [c, d] \<longleftrightarrow> a = c \<and> b = d"
  by (simp add: endswith_def)

lemma item_seg_props:
  "strip (item_seg r) \<noteq> []" "\<not> startswith (item_seg r) ''</''"
  "\<not> startswith (item_seg r) ''<resources''" "\<not> endswith (item_seg r) ''/>''"
proof -
  obtain p n d where r: "r = (p, n, d)" by (cases r)
  show "strip (item_seg r) \<noteq> []"
    by (rule strip_nonempty) (simp_all add: r item_seg_eq not_space_lt)
  show "\<not> startswith (item_seg r) ''</''"
    by (simp add: r item_seg_eq startswith_def)
  show "\<not> startswith (item_seg r) ''<resources''"
    by (simp add: r item_seg_eq startswith_def)
  have "item_seg r = (butlast (butlast (item_seg r))) @ [CHR '' '', CHR ''/'']"
    by (simp add: r item_seg_eq butlast_append)
  then have "endswith (item_seg r) ''/>''
      = endswith ((butlast (butlast (item_seg r))) @ [CHR '' '', CHR ''/'']) ''/>''"
    by simp
  then show "\<not> endswith (item_seg r) ''/>''"
    by (simp only: endswith_two) simp
qed

lemma format_step_item:
  "format_step (f, i) (item_seg r) = (f @ i @ item_seg r @ [CHR ''>'', CHR 0x0A], ''    '')"
  by (simp add: format_step_def item_seg_props)

lemma format_items:
  "foldl format_step (f, ''    '') (map item_seg rs)
     = (f @ concat (map (\<lambda>r. ''    '' @ item_seg r @ [CHR ''>'', CHR 0x0A]) rs), ''    '')"
  by (induction rs arbitrary: f) (simp_all add: format_step_item)

lemma format_open:
  "format_step ([], []) ''<resources'' = (''<resources'' @ [CHR ''>'', CHR 0x0A], [])"
  by (simp add: format_step_def strip_nonempty not_space_lt startswith_def)

lemma format_close:
  "format_step (f, i) ''</resources'' = (f @ ''</resources'' @ [CHR ''>'', CHR 0x0A], [])"
  by (simp add: format_step_def strip_nonempty not_space_lt startswith_def)

lemma format_empty: "format_step st [] = st"
  by (cases st) (simp add: format_step_def strip_def)

lemma icon_mapper_text_Cons:
  "icon_mapper_text (r # rs)
     = decl_line @ [CHR 0x0A] @ ''<resources>'' @ [CHR 0x0A]
       @ item_markup r @ [CHR 0x0A]
       @ concat (map (\<lambda>x. ''    '' @ item_markup x @ [CHR 0x0A]) rs)
       @ ''</resources>'' @ [CHR 0x0A]"
proof -
  have "foldl format_step ([], []) (split_on CHR ''>'' (tostring (r # rs)))
        = format_step (format_step
            (foldl format_step
               (format_step (format_step ([], []) ''<resources'') (item_seg r))
               (map item_seg rs)) ''</resources'') []"
    by (simp only: split_tostring foldl_Cons foldl_append list.map foldl_Nil)
  also have "\<dots> = (''<resources'' @ [CHR ''>'', CHR 0x0A] @ item_seg r @ [CHR ''>'', CHR 0x0A]
        @ concat (map (\<lambda>r. ''    '' @ item_seg r @ [CHR ''>'', CHR 0x0A]) rs)
        @ ''</resources'' @ [CHR ''>'', CHR 0x0A], [])"
    by (simp only: format_open format_step_item format_items format_close format_empty
        append_Nil append_assoc)
  finally show ?thesis
    by (simp add: icon_mapper_text_def decl_line_def item_markup_seg)
qed

lemma icon_mapper_text_Nil:
  "icon_mapper_text [] = decl_line @ [CHR 0x0A] @ ''<resources />'' @ [CHR 0x0A]"
  by (simp add: icon_mapper_text_def decl_line_def tostring_def format_step_def strip_def
      is_space_def startswith_def endswith_def)

lemma item_markup_clean: "CHR 0x0A \<notin> set (item_markup r)"
  by (simp add: item_markup_seg item_seg_clean)

lemma split_lines_rows:
  assumes "CHR 0x0A \<notin> set i"
  shows "split_on CHR 0x0A (concat (map (\<lambda>x. i @ item_markup x @ [CHR 0x0A]) rs) @ t)
     = map (\<lambda>x. i @ item_markup x) rs @ split_on CHR 0x0A t"
proof (induction rs)
  case Nil
  show ?case by simp
next
  case (Cons r rs)
  have "split_on CHR 0x0A ((i @ item_markup r) @ CHR 0x0A #
          (concat (map (\<lambda>x. i @ item_markup x @ [CHR 0x0A]) rs) @ t))
        = (i @ item_markup r) # split_on CHR 0x0A
            (concat (map (\<lambda>x. i @ item_markup x @ [CHR 0x0A]) rs) @ t)"
    by (rule split_on_append) (simp add: item_markup_clean assms)
  then show ?case by (simp add: Cons.IH)
qed

lemma lines_Cons:
  "split_on CHR 0x0A (icon_mapper_text (r # rs))
     = [decl_line, ''<resources>'', item_markup r]
       @ map (\<lambda>x. ''    '' @ item_markup x) rs @ [''</resources>'', []]"
proof -
  have e: "split_on CHR 0x0A (''</resources>'' @ [CHR 0x0A]) = [''</resources>'', []]"
    by simp
  have "split_on CHR 0x0A (icon_mapper_text (r # rs))
      = decl_line # split_on CHR 0x0A (''<resources>'' @ CHR 0x0A # (item_markup r @ CHR 0x0A #
          (concat (map (\<lambda>x. ''    '' @ item_markup x @ [CHR 0x0A]) rs)
            @ ''</resources>'' @ [CHR 0x0A])))"
    unfolding icon_mapper_text_Cons
    using split_on_append[of "CHR 0x0A" decl_line] by (simp add: decl_line_def)
  also have "\<dots> = decl_line # ''<resources>'' # split_on CHR 0x0A (item_markup r @ CHR 0x0A #
          (concat (map (\<lambda>x. ''    '' @ item_markup x @ [CHR 0x0A]) rs)
            @ ''</resources>'' @ [CHR 0x0A]))"
    using split_on_append[of "CHR 0x0A" "''<resources>''"] by simp
  also have "\<dots> = decl_line # ''<resources>'' # item_markup r # split_on CHR 0x0A
          (concat (map (\<lambda>x. ''    '' @ item_markup x @ [CHR 0x0A]) rs)
            @ ''</resources>'' @ [CHR 0x0A])"
    using split_on_append[OF item_markup_clean] by simp
  also have "\<dots> = [decl_line, ''<resources>'', item_markup r]
       @ map (\<lambda>x. ''    '' @ item_markup x) rs @ [''</resources>'', []]"
    using split_lines_rows[of "''    ''" rs "''</resources>'' @ [CHR 0x0A]"] by (simp add: e)
  finally show ?thesis .
qed

lemma lines_Nil:
  "split_on CHR 0x0A (icon_mapper_text []) = [decl_line, ''<resources />'', []]"
  by (simp add: icon_mapper_text_Nil decl_line_def)

lemma item_markup_starts: "startswith (item_markup r) ''<item''"
  by (cases r) (simp add: item_markup_def startswith_def)

lemma item_markup_hd:
  "set i \<subseteq> {CHR '' ''} \<Longrightarrow> dropWhile (\<lambda>c. c = CHR '' '') (i @ item_markup r) = item_markup r"
  by (cases r) (auto simp: item_markup_def dropWhile_append)

lemma item_lines_filter:
  assumes "set i \<subseteq> {CHR '' ''}"
  shows "filter (\<lambda>l. startswith (dropWhile (\<lambda>c. c = CHR '' '') l) ''<item'')
          (map (\<lambda>x. i @ item_markup x) rs) = map (\<lambda>x. i @ item_markup x) rs"
  by (induction rs) (simp_all add: item_markup_hd[OF assms] item_markup_starts)

lemma item_lines_Cons:
  "item_lines (icon_mapper_text (r # rs))
     = item_markup r # map (\<lambda>x. ''    '' @ item_markup x) rs"
proof -
  have f: "filter (\<lambda>l. startswith (dropWhile (\<lambda>c. c = CHR '' '') l) ''<item'')
          (map (\<lambda>x. ''    '' @ item_markup x) rs) = map (\<lambda>x. ''    '' @ item_markup x) rs"
    by (rule item_lines_filter) simp
  have g: "startswith (dropWhile (\<lambda>c. c = CHR '' '') (item_markup r)) ''<item''"
    using item_markup_hd[of "[]" r] by (simp add: item_markup_starts)
  have h: "\<not> startswith (dropWhile (\<lambda>c. c = CHR '' '') decl_line) ''<item''"
    "\<not> startswith (dropWhile (\<lambda>c. c = CHR '' '') ''<resources>'') ''<item''"
    "\<not> startswith (dropWhile (\<lambda>c. c = CHR '' '') ''</resources>'') ''<item''"
    "\<not> startswith (dropWhile (\<lambda>c. c = CHR '' '') []) ''<item''"
    by (simp_all add: startswith_def decl_line_def)
  show ?thesis
    unfolding item_lines_def lines_Cons filter_append filter.simps f
    by (simp only: g h if_True if_False append_Cons append_Nil append_Nil2)
qed

lemma item_lines_Nil: "item_lines (icon_mapper_text []) = []"
  unfolding item_lines_def lines_Nil by (simp add: startswith_def decl_line_def)

lemma lines_hd: "hd (split_on CHR 0x0A (icon_mapper_text rows)) = decl_line"
  by (cases rows) (simp_all add: lines_Nil lines_Cons)

lemma item_lines_tl:
  "tl (item_lines (icon_mapper_text rows)) = map (\<lambda>r. ''    '' @ item_markup r) (tl rows)"
  by (cases rows) (simp_all add: item_lines_Nil item_lines_Cons)

lemma item_lines_length: "length (item_lines (icon_mapper_text rows)) = length rows"
  by (cases rows) (simp_all add: item_lines_Nil item_lines_Cons)

lemma item_lines_contents:
  "map (dropWhile (\<lambda>c. c = CHR '' '')) (item_lines (icon_mapper_text rows))
     = map item_markup rows"
proof (cases rows)
  case Nil
  then show ?thesis by (simp add: item_lines_Nil)
next
  case (Cons r rs)
  have "map (dropWhile (\<lambda>c. c = CHR '' '')) (map (\<lambda>x. ''    '' @ item_markup x) rs)
          = map item_markup rs"
    using item_markup_hd[of "''    ''"] by (induction rs) simp_all
  moreover have "dropWhile (\<lambda>c. c = CHR '' '') (item_markup r) = item_markup r"
    using item_markup_hd[of "[]" r] by simp
  ultimately show ?thesis unfolding Cons item_lines_Cons by (simp only: list.map)
qed

lemma item_lines_first:
  "take 1 (item_lines (icon_mapper_text rows)) = map item_markup (take 1 rows)"
  by (cases rows) (simp_all add: item_lines_Nil item_lines_Cons)

text \<open>
  Claim C6, as amended. The written text begins with the XML declaration line. The lines
  that hold an item element are, in order and after their leading spaces, exactly the
  item elements of the rows of the normalized table, one line per row; and the line of
  the first row has no indentation, as the test on \<open><resources\<close> in the loop arranges.
  The number of spaces before the later rows is left open.
\<close>

theorem icon_mapper_rows_layout:
  "hd (split_on CHR 0x0A (convert_icon_mapper t)) = decl_line
   \<and> map (dropWhile (\<lambda>c. c = CHR '' '')) (item_lines (convert_icon_mapper t))
       = map item_markup (normalized_rows t)
   \<and> take 1 (item_lines (convert_icon_mapper t)) = map item_markup (take 1 (normalized_rows t))"
  by (simp only: convert_icon_mapper_def lines_hd item_lines_contents item_lines_first)

text \<open>
  Claim C6 as stated fails: for the example table the two rows are indented by zero and
  by four spaces, not by two.
\<close>

theorem two_space_indent_counterexample:
  "map indent_of (item_lines (convert_icon_mapper example_table)) = [0, 4]"
  by code_simp

subsection \<open>Icon generation\<close>

lemma bit_length_bounds: "0 < k \<Longrightarrow> 2 ^ (k - 1) \<le> n \<Longrightarrow> n < 2 ^ k \<Longrightarrow> bit_length n = k"
proof (induction k arbitrary: n)
  case 0
  then show ?case by simp
next
  case (Suc k)
  show ?case
  proof (cases "k = 0")
    case True
    with Suc.prems have "n = 1" by simp
    then show ?thesis using True
      by (simp add: bit_length.simps[of "Suc 0"] bit_length.simps[of 0])
  next
    case False
    then have k: "0 < k" by simp
    from Suc.prems False have lo: "2 ^ (k - 1) \<le> n div 2"
      by (cases k) auto
    from Suc.prems have hi: "n div 2 < 2 ^ k" by auto
    from Suc.prems have "n \<noteq> 0" by auto
    then have "bit_length n = Suc (bit_length (n div 2))"
      by (subst bit_length.simps) simp
    with Suc.IH[OF k lo hi] show ?thesis by simp
  qed
qed





lemma map_of_dict_set: "map_of (dict_set k v d) q = (if q = k then Some v else map_of d q)"
  by (simp add: dict_set_map_of)

lemma map_of_mkdir:
  "map_of (mkdir tree p) q
     = (if q = p then Some (case map_of tree p of None \<Rightarrow> [] | Some d \<Rightarrow> d) else map_of tree q)"
  by (auto simp: mkdir_def map_add_def split: option.splits)

lemma map_of_save_png:
  "map_of tree p = Some d \<Longrightarrow>
   map_of (save_png tree p f img) q = (if q = p then Some (dict_set f img d) else map_of tree q)"
  by (simp add: save_png_def map_of_dict_set)

lemma generate_step_tree:
  "map_of (fst (generate_step e svg_dir fg sz sc bg tot (tree, ev, n) (p, d))) q
     = (if q = p then step_dir e svg_dir fg sz sc bg (map_of tree p) d else map_of tree q)"
proof (cases "path_exists e (svg_path_of svg_dir d)")
  case False
  then show ?thesis by (simp add: generate_step_def step_dir_def)
next
  case True
  let ?d0 = "case map_of tree p of None \<Rightarrow> [] | Some d \<Rightarrow> d"
  let ?t1 = "save_png (mkdir tree p) p ''0.png'' bg"
  have m: "map_of (mkdir tree p) p = Some ?d0" by (simp add: map_of_mkdir)
  have t1: "map_of ?t1 q = (if q = p then Some (dict_set ''0.png'' bg ?d0) else map_of tree q)" for q
    by (simp add: map_of_save_png[OF m] map_of_mkdir)
  show ?thesis
  proof (cases "process_svg e (svg_path_of svg_dir d) fg sz sc")
    case None
    then show ?thesis using True t1 by (simp add: generate_step_def step_dir_def Let_def)
  next
    case (Some icon)
    have "map_of (save_png ?t1 p ''1.png'' icon) q
          = (if q = p then Some (dict_set ''1.png'' icon (dict_set ''0.png'' bg ?d0))
             else map_of tree q)"
      using map_of_save_png[of ?t1 p "dict_set ''0.png'' bg ?d0" "''1.png''" icon q] t1
      by simp
    then show ?thesis using True Some by (simp add: generate_step_def step_dir_def Let_def)
  qed
qed

lemma generate_fold_tree:
  assumes "distinct (map fst m)"
  shows "map_of (fst (foldl (generate_step e svg_dir fg sz sc bg tot) st m)) q
     = (case map_of m q of None \<Rightarrow> map_of (fst st) q
        | Some d \<Rightarrow> step_dir e svg_dir fg sz sc bg (map_of (fst st) q) d)"
  using assms
proof (induction m arbitrary: st q)
  case Nil
  show ?case by simp
next
  case (Cons x m)
  obtain p d where x: "x = (p, d)" by (cases x)
  obtain tree ev n where st: "st = (tree, ev, n)" by (cases st)
  from Cons.prems x have nin: "map_of m p = None" and dm: "distinct (map fst m)"
    by (auto simp: map_of_eq_None_iff)
  show ?case
  proof (cases "q = p")
    case True
    then show ?thesis using nin
      by (simp add: Cons.IH[OF dm] x st generate_step_tree)
  next
    case False
    then show ?thesis
      by (simp add: Cons.IH[OF dm] x st generate_step_tree split: option.splits)
  qed
qed

lemma mapper_step_distinct: "distinct (map fst d) \<Longrightarrow> distinct (map fst (mapper_step d item))"
  by (auto simp: mapper_step_def dict_set_distinct split: option.splits)

lemma foldl_mapper_distinct:
  "distinct (map fst d) \<Longrightarrow> distinct (map fst (foldl mapper_step d items))"
  by (induction items arbitrary: d) (simp_all add: mapper_step_distinct)

lemma parse_icon_mapper_distinct: "distinct (map fst (parse_icon_mapper xml))"
  by (simp add: parse_icon_mapper_def foldl_mapper_distinct)

lemma generate_icons_dir:
  assumes "(p, d) \<in> set (parse_icon_mapper xml)"
  shows "map_of (fst (generate_icons e xml svg_dir tree fg bgc sz sc)) p
     = step_dir e svg_dir fg sz sc (create_background e sz bgc) (map_of tree p) d"
proof -
  have "map_of (parse_icon_mapper xml) p = Some d"
    using assms parse_icon_mapper_distinct by (simp add: map_of_eq_Some_iff)
  then show ?thesis
    by (simp add: generate_icons_def Let_def generate_fold_tree[OF parse_icon_mapper_distinct])
qed

lemma generate_step_events:
  "fst (snd (generate_step e svg_dir fg sz sc bg tot (tree, ev, n) x))
     = ev @ step_events e svg_dir fg sz sc tot n x"
  by (cases x)
     (simp add: generate_step_def step_events_def Let_def split: option.splits)

lemma generate_fold_events_mono:
  "\<exists>post. fst (snd (foldl (generate_step e svg_dir fg sz sc bg tot) st m)) = fst (snd st) @ post"
proof (induction m arbitrary: st)
  case Nil
  show ?case by simp
next
  case (Cons x m)
  obtain tree ev n where st: "st = (tree, ev, n)" by (cases st)
  obtain post where
    "fst (snd (foldl (generate_step e svg_dir fg sz sc bg tot)
        (generate_step e svg_dir fg sz sc bg tot st x) m))
     = fst (snd (generate_step e svg_dir fg sz sc bg tot st x)) @ post"
    using Cons.IH by blast
  then have "fst (snd (foldl (generate_step e svg_dir fg sz sc bg tot) st (x # m)))
     = fst (snd st) @ (step_events e svg_dir fg sz sc tot n x @ post)"
    by (simp add: st generate_step_events)
  then show ?case by blast
qed

lemma generate_fold_events_entry:
  assumes "x \<in> set m"
  shows "\<exists>pre post n. fst (snd (foldl (generate_step e svg_dir fg sz sc bg tot) st m))
           = pre @ step_events e svg_dir fg sz sc tot n x @ post"
  using assms
proof (induction m arbitrary: st)
  case Nil
  then show ?case by simp
next
  case (Cons y m)
  obtain tree ev n where st: "st = (tree, ev, n)" by (cases st)
  show ?case
  proof (cases "x = y")
    case True
    obtain post where
      "fst (snd (foldl (generate_step e svg_dir fg sz sc bg tot)
          (generate_step e svg_dir fg sz sc bg tot st y) m))
       = fst (snd (generate_step e svg_dir fg sz sc bg tot st y)) @ post"
      using generate_fold_events_mono by blast
    then have "fst (snd (foldl (generate_step e svg_dir fg sz sc bg tot) st (y # m)))
       = ev @ step_events e svg_dir fg sz sc tot n x @ post"
      by (simp add: st True generate_step_events)
    then show ?thesis by blast
  next
    case False
    with Cons.prems have "x \<in> set m" by simp
    from Cons.IH[OF this, of "generate_step e svg_dir fg sz sc bg tot st y"]
    show ?thesis by simp
  qed
qed

lemma step_events_dir:
  assumes "Mkdir q \<in> set (step_events e svg_dir fg sz sc tot n x)
           \<or> Save q f \<in> set (step_events e svg_dir fg sz sc tot n x)"
  shows "fst x = q \<and> path_exists e (svg_path_of svg_dir (snd x))"
  using assms
  by (cases x) (auto simp: step_events_def split: if_splits option.splits)

lemma generate_fold_events_dir:
  assumes "Mkdir q \<in> set (fst (snd (foldl (generate_step e svg_dir fg sz sc bg tot) st m)))
           \<or> Save q f \<in> set (fst (snd (foldl (generate_step e svg_dir fg sz sc bg tot) st m)))"
  shows "Mkdir q \<in> set (fst (snd st)) \<or> Save q f \<in> set (fst (snd st))
         \<or> (\<exists>d. (q, d) \<in> set m \<and> path_exists e (svg_path_of svg_dir d))"
  using assms
proof (induction m arbitrary: st)
  case Nil
  then show ?case by simp
next
  case (Cons x m)
  obtain tree ev n where st: "st = (tree, ev, n)" by (cases st)
  let ?st' = "generate_step e svg_dir fg sz sc bg tot st x"
  from Cons.prems have
    "Mkdir q \<in> set (fst (snd (foldl (generate_step e svg_dir fg sz sc bg tot) ?st' m)))
     \<or> Save q f \<in> set (fst (snd (foldl (generate_step e svg_dir fg sz sc bg tot) ?st' m)))"
    by simp
  from Cons.IH[OF this] consider
    (old) "Mkdir q \<in> set (fst (snd ?st')) \<or> Save q f \<in> set (fst (snd ?st'))"
    | (later) "\<exists>d. (q, d) \<in> set m \<and> path_exists e (svg_path_of svg_dir d)"
    by blast
  then show ?case
  proof cases
    case old
    then have "Mkdir q \<in> set ev \<or> Save q f \<in> set ev
       \<or> Mkdir q \<in> set (step_events e svg_dir fg sz sc tot n x)
       \<or> Save q f \<in> set (step_events e svg_dir fg sz sc tot n x)"
      by (auto simp: st generate_step_events)
    then show ?thesis
      using step_events_dir[of q e svg_dir fg sz sc tot n x f]
      by (cases x) (auto simp: st)
  next
    case later
    then show ?thesis by auto
  qed
qed

lemma generate_icons_events_entry:
  assumes "(p, d) \<in> set (parse_icon_mapper xml)"
  shows "\<exists>pre post n.
     fst (snd (generate_icons e xml svg_dir tree fg bgc sz sc))
       = pre @ step_events e svg_dir fg sz sc (length (parse_icon_mapper xml)) n (p, d) @ post"
  using generate_fold_events_entry[OF assms]
  by (simp add: generate_icons_def Let_def)

lemma generate_icons_events_dir:
  assumes "Mkdir q \<in> set (fst (snd (generate_icons e xml svg_dir tree fg bgc sz sc)))
           \<or> Save q f \<in> set (fst (snd (generate_icons e xml svg_dir tree fg bgc sz sc)))"
  shows "\<exists>d. (q, d) \<in> set (parse_icon_mapper xml) \<and> path_exists e (svg_path_of svg_dir d)"
  using generate_fold_events_dir[of q e svg_dir fg sz sc "create_background e sz bgc"
      "length (parse_icon_mapper xml)" "(tree, [], 0)" "parse_icon_mapper xml" f] assms
  by (simp add: generate_icons_def Let_def)

lemma mapper_entry_unique:
  assumes "(p, d) \<in> set (parse_icon_mapper xml)" "(p, d') \<in> set (parse_icon_mapper xml)"
  shows "d' = d"
  using assms parse_icon_mapper_distinct[of xml]
  by (meson eq_key_imp_eq_value)

text \<open>
  Claim C4. For an entry of the mapping whose asset path does not exist, the run leaves
  the package's place in the output directory as it was (no directory, when there was
  none), makes no directory and saves no file for the package, and prints the message
  for a missing asset.
\<close>

theorem generate_icons_missing_asset:
  assumes "(p, d) \<in> set (parse_icon_mapper xml)"
    and "\<not> path_exists e (svg_path_of svg_dir d)"
  shows "map_of (fst (generate_icons e xml svg_dir tree fg bgc sz sc)) p = map_of tree p
    \<and> Mkdir p \<notin> set (fst (snd (generate_icons e xml svg_dir tree fg bgc sz sc)))
    \<and> Save p f \<notin> set (fst (snd (generate_icons e xml svg_dir tree fg bgc sz sc)))
    \<and> Print_missing d p \<in> set (fst (snd (generate_icons e xml svg_dir tree fg bgc sz sc)))"
proof (intro conjI)
  show "map_of (fst (generate_icons e xml svg_dir tree fg bgc sz sc)) p = map_of tree p"
    using assms(2) by (simp add: generate_icons_dir[OF assms(1)] step_dir_def)
  have no: "\<not> (\<exists>d'. (p, d') \<in> set (parse_icon_mapper xml)
               \<and> path_exists e (svg_path_of svg_dir d'))"
    using assms mapper_entry_unique by blast
  show "Mkdir p \<notin> set (fst (snd (generate_icons e xml svg_dir tree fg bgc sz sc)))"
    using no generate_icons_events_dir[of p e xml svg_dir tree fg bgc sz sc] by blast
  show "Save p f \<notin> set (fst (snd (generate_icons e xml svg_dir tree fg bgc sz sc)))"
    using no generate_icons_events_dir[of p e xml svg_dir tree fg bgc sz sc f] by blast
  obtain pre post n where
    "fst (snd (generate_icons e xml svg_dir tree fg bgc sz sc))
       = pre @ step_events e svg_dir fg sz sc (length (parse_icon_mapper xml)) n (p, d) @ post"
    using generate_icons_events_entry[OF assms(1)] by blast
  then show "Print_missing d p \<in> set (fst (snd (generate_icons e xml svg_dir tree fg bgc sz sc)))"
    using assms(2) by (simp add: step_events_def)
qed

lemma one_entry_mapper: "parse_icon_mapper one_entry = [(''org.b'', ''b'')]"
  by (simp add: parse_icon_mapper_def one_entry_def findall_def mapper_step_def)

text \<open>One entry, no asset, an empty output directory: nothing is created.\<close>

theorem generate_icons_missing_asset_witness:
  "(''org.b'', ''b'') \<in> set (parse_icon_mapper one_entry)
   \<and> \<not> path_exists empty_env (svg_path_of ''svgs'' ''b'')
   \<and> map_of (fst (generate_icons empty_env one_entry ''svgs'' [] FG_COLOR BG_COLOR
                     ICON_SIZE ICON_SCALE)) ''org.b'' = None
   \<and> Mkdir ''org.b'' \<notin> set (fst (snd (generate_icons empty_env one_entry ''svgs'' []
                     FG_COLOR BG_COLOR ICON_SIZE ICON_SCALE)))
   \<and> Print_missing ''b'' ''org.b'' \<in> set (fst (snd (generate_icons empty_env one_entry
                     ''svgs'' [] FG_COLOR BG_COLOR ICON_SIZE ICON_SCALE)))"
proof -
  have a: "(''org.b'', ''b'') \<in> set (parse_icon_mapper one_entry)"
    by (simp add: one_entry_mapper)
  have b: "\<not> path_exists empty_env (svg_path_of ''svgs'' ''b'')"
    by (simp add: empty_env_def)
  show ?thesis
    using generate_icons_missing_asset[OF a b, of "[]" FG_COLOR BG_COLOR ICON_SIZE ICON_SCALE
        "''0.png''"] a b
    by simp
qed

text \<open>
  Claim C10. For an entry whose asset path exists, the directory is made and \<open>0.png\<close> is
  saved immediately before the rasterization is attempted. When the rasterization
  fails and the package had no directory before, the directory holds \<open>0.png\<close>, the
  background, and nothing else; no \<open>1.png\<close> is saved for the package.
\<close>

theorem generate_icons_background_first:
  assumes "(p, d) \<in> set (parse_icon_mapper xml)"
    and "path_exists e (svg_path_of svg_dir d)"
  shows "(\<exists>pre post. fst (snd (generate_icons e xml svg_dir tree fg bgc sz sc))
            = pre @ [Mkdir p, Save p ''0.png'', Rasterize (svg_path_of svg_dir d)] @ post)
    \<and> (svg2png e (svg_path_of svg_dir d) (icon_actual_size sz sc) (icon_actual_size sz sc) = None
        \<and> map_of tree p = None
       \<longrightarrow> map_of (fst (generate_icons e xml svg_dir tree fg bgc sz sc)) p
             = Some [(''0.png'', create_background e sz bgc)]
           \<and> Save p ''1.png'' \<notin> set (fst (snd (generate_icons e xml svg_dir tree fg bgc sz sc))))"
proof (intro conjI impI)
  obtain pre post n where ev:
    "fst (snd (generate_icons e xml svg_dir tree fg bgc sz sc))
       = pre @ step_events e svg_dir fg sz sc (length (parse_icon_mapper xml)) n (p, d) @ post"
    using generate_icons_events_entry[OF assms(1)] by blast
  obtain rest where
    "step_events e svg_dir fg sz sc (length (parse_icon_mapper xml)) n (p, d)
       = [Mkdir p, Save p ''0.png'', Rasterize (svg_path_of svg_dir d)] @ rest"
    using assms(2) by (simp add: step_events_def)
  with ev have "fst (snd (generate_icons e xml svg_dir tree fg bgc sz sc))
       = pre @ [Mkdir p, Save p ''0.png'', Rasterize (svg_path_of svg_dir d)] @ (rest @ post)"
    by simp
  then show "\<exists>pre post. fst (snd (generate_icons e xml svg_dir tree fg bgc sz sc))
            = pre @ [Mkdir p, Save p ''0.png'', Rasterize (svg_path_of svg_dir d)] @ post"
    by blast
next
  assume h: "svg2png e (svg_path_of svg_dir d) (icon_actual_size sz sc) (icon_actual_size sz sc)
               = None \<and> map_of tree p = None"
  then have ps: "process_svg e (svg_path_of svg_dir d) fg sz sc = None"
    by (simp add: process_svg_def Let_def)
  show "map_of (fst (generate_icons e xml svg_dir tree fg bgc sz sc)) p
             = Some [(''0.png'', create_background e sz bgc)]"
    using assms(2) h ps by (simp add: generate_icons_dir[OF assms(1)] step_dir_def)
  show "Save p ''1.png'' \<notin> set (fst (snd (generate_icons e xml svg_dir tree fg bgc sz sc)))"
  proof
    assume s: "Save p ''1.png'' \<in> set (fst (snd (generate_icons e xml svg_dir tree fg bgc sz sc)))"
    have "\<And>st. Save p ''1.png'' \<in> set (fst (snd (foldl
              (generate_step e svg_dir fg sz sc (create_background e sz bgc)
                 (length (parse_icon_mapper xml))) st m)))
            \<Longrightarrow> set m \<subseteq> set (parse_icon_mapper xml)
            \<Longrightarrow> Save p ''1.png'' \<in> set (fst (snd st))" for m
    proof (induction m)
      case Nil
      then show ?case by simp
    next
      case (Cons x m)
      obtain tree' ev n where st: "st = (tree', ev, n)" by (cases st)
      obtain q d' where x: "x = (q, d')" by (cases x)
      let ?st' = "generate_step e svg_dir fg sz sc (create_background e sz bgc)
                 (length (parse_icon_mapper xml)) st x"
      from Cons.prems have "Save p ''1.png'' \<in> set (fst (snd ?st'))"
        using Cons.IH[of ?st'] by simp
      then have "Save p ''1.png'' \<in> set ev
         \<or> Save p ''1.png'' \<in> set (step_events e svg_dir fg sz sc
               (length (parse_icon_mapper xml)) n (q, d'))"
        by (auto simp: st x generate_step_events)
      moreover have "Save p ''1.png'' \<notin> set (step_events e svg_dir fg sz sc
               (length (parse_icon_mapper xml)) n (q, d'))"
      proof (cases "q = p")
        case True
        with Cons.prems(2) x have "(p, d') \<in> set (parse_icon_mapper xml)" by simp
        then have "d' = d" using assms(1) mapper_entry_unique by blast
        then show ?thesis using True ps by (simp add: step_events_def)
      next
        case False
        then show ?thesis by (auto simp: step_events_def split: option.splits)
      qed
      ultimately show ?case by (simp add: st)
    qed
    from this[of "(tree, [], 0)" "parse_icon_mapper xml"] s show False
      by (simp add: generate_icons_def Let_def)
  qed
qed

text \<open>One entry whose asset exists and does not rasterize, with the constants of the script.\<close>

theorem generate_icons_background_first_witness:
  "(''org.b'', ''b'') \<in> set (parse_icon_mapper one_entry)
   \<and> path_exists failing_env (svg_path_of ''svgs'' ''b'')
   \<and> svg2png failing_env (svg_path_of ''svgs'' ''b'') (icon_actual_size ICON_SIZE ICON_SCALE)
        (icon_actual_size ICON_SIZE ICON_SCALE) = None
   \<and> map_of ([] :: out_tree) ''org.b'' = None
   \<and> map_of (fst (generate_icons failing_env one_entry ''svgs'' [] FG_COLOR BG_COLOR
                     ICON_SIZE ICON_SCALE)) ''org.b''
        = Some [(''0.png'', create_background failing_env ICON_SIZE BG_COLOR)]
   \<and> Save ''org.b'' ''1.png'' \<notin> set (fst (snd (generate_icons failing_env one_entry ''svgs'' []
                     FG_COLOR BG_COLOR ICON_SIZE ICON_SCALE)))"
proof -
  have a: "(''org.b'', ''b'') \<in> set (parse_icon_mapper one_entry)"
    by (simp add: one_entry_mapper)
  have b: "path_exists failing_env (svg_path_of ''svgs'' ''b'')"
    by (simp add: failing_env_def)
  have c: "svg2png failing_env (svg_path_of ''svgs'' ''b'') (icon_actual_size ICON_SIZE ICON_SCALE)
        (icon_actual_size ICON_SIZE ICON_SCALE) = None"
    by (simp add: failing_env_def)
  show ?thesis
    using generate_icons_background_first[OF a b, of "[]" FG_COLOR BG_COLOR ICON_SIZE ICON_SCALE]
      a b c
    by simp
qed

lemma new_image_size: "im_size (new_image sz px) = sz"
  "length (im_data (new_image sz px)) = fst sz * snd sz"
  by (simp_all add: new_image_def)

lemma paste_size: "im_size (paste e c i pos) = im_size c"
  "length (im_data (paste e c i pos)) = length (im_data c)"
  by (simp_all add: paste_def)

lemma colorize_size: "im_size (colorize e fg img) = im_size img"
  "length (im_data (colorize e fg img)) = length (im_data img)"
  by (simp_all add: colorize_def)

lemma pasted_canvas_size: "im_size (pasted_canvas e icon sz n) = (sz, sz)"
  "length (im_data (pasted_canvas e icon sz n)) = sz * sz"
  by (simp_all add: pasted_canvas_def Let_def paste_size new_image_size)

lemma create_background_size: "im_size (create_background e sz c) = (sz, sz)"
  "length (im_data (create_background e sz c)) = sz * sz"
  by (simp_all add: create_background_def new_image_size split: prod.splits)

lemma process_svg_size:
  assumes "process_svg e path fg sz sc = Some img"
  shows "im_size img = (sz, sz) \<and> length (im_data img) = sz * sz"
  using assms
  by (auto simp: process_svg_def Let_def colorize_size pasted_canvas_size split: option.splits)

lemma process_svg_None_iff:
  "process_svg e path fg sz sc = None
     \<longleftrightarrow> svg2png e path (icon_actual_size sz sc) (icon_actual_size sz sc) = None"
  by (simp add: process_svg_def Let_def split: option.splits)

text \<open>
  Claim C3, as amended. Every package directory that a run creates holds \<open>0.png\<close>, an
  image of the canvas size. It holds \<open>1.png\<close>, an image of the canvas size, when the
  rasterization of the package's asset succeeded; when it failed, the run writes no
  \<open>1.png\<close>: the directory has one only if it had one before the run.
\<close>

theorem generate_icons_layers:
  assumes "(p, d) \<in> set (parse_icon_mapper xml)"
    and "path_exists e (svg_path_of svg_dir d)"
  shows "\<exists>dir bg. map_of (fst (generate_icons e xml svg_dir tree fg bgc sz sc)) p = Some dir
    \<and> map_of dir ''0.png'' = Some bg \<and> im_size bg = (sz, sz) \<and> length (im_data bg) = sz * sz
    \<and> (svg2png e (svg_path_of svg_dir d) (icon_actual_size sz sc) (icon_actual_size sz sc) \<noteq> None
        \<longrightarrow> (\<exists>ic. map_of dir ''1.png'' = Some ic \<and> im_size ic = (sz, sz)
                  \<and> length (im_data ic) = sz * sz))
    \<and> (svg2png e (svg_path_of svg_dir d) (icon_actual_size sz sc) (icon_actual_size sz sc) = None
        \<longrightarrow> map_of dir ''1.png''
              = (case map_of tree p of None \<Rightarrow> None | Some d0 \<Rightarrow> map_of d0 ''1.png''))"
proof (cases "process_svg e (svg_path_of svg_dir d) fg sz sc")
  case None
  then have n: "svg2png e (svg_path_of svg_dir d) (icon_actual_size sz sc) (icon_actual_size sz sc)
                 = None"
    by (simp add: process_svg_None_iff)
  let ?dir = "dict_set ''0.png'' (create_background e sz bgc)
                (case map_of tree p of None \<Rightarrow> [] | Some d \<Rightarrow> d)"
  have "map_of (fst (generate_icons e xml svg_dir tree fg bgc sz sc)) p = Some ?dir"
    using assms(2) None by (simp add: generate_icons_dir[OF assms(1)] step_dir_def)
  moreover have "map_of ?dir ''0.png'' = Some (create_background e sz bgc)"
    by (simp add: map_of_dict_set)
  moreover have "map_of ?dir ''1.png''
       = (case map_of tree p of None \<Rightarrow> None | Some d0 \<Rightarrow> map_of d0 ''1.png'')"
    by (simp add: map_of_dict_set split: option.splits)
  ultimately show ?thesis using n create_background_size[of e sz bgc]
    by (intro exI[of _ ?dir] exI[of _ "create_background e sz bgc"]) simp
next
  case (Some icon)
  then have n: "svg2png e (svg_path_of svg_dir d) (icon_actual_size sz sc) (icon_actual_size sz sc)
                 \<noteq> None"
    using process_svg_None_iff[of e "svg_path_of svg_dir d" fg sz sc] by simp
  let ?dir = "dict_set ''1.png'' icon (dict_set ''0.png'' (create_background e sz bgc)
                (case map_of tree p of None \<Rightarrow> [] | Some d \<Rightarrow> d))"
  have "map_of (fst (generate_icons e xml svg_dir tree fg bgc sz sc)) p = Some ?dir"
    using assms(2) Some by (simp add: generate_icons_dir[OF assms(1)] step_dir_def)
  moreover have "map_of ?dir ''0.png'' = Some (create_background e sz bgc)"
    by (simp add: map_of_dict_set)
  moreover have "map_of ?dir ''1.png'' = Some icon"
    by (simp add: map_of_dict_set)
  moreover have "im_size icon = (sz, sz) \<and> length (im_data icon) = sz * sz"
    using Some by (rule process_svg_size)
  ultimately show ?thesis using n create_background_size[of e sz bgc]
    by (intro exI[of _ ?dir] exI[of _ "create_background e sz bgc"]) auto
qed

text \<open>The same entry in an environment that rasterizes and in one that does not.\<close>

theorem generate_icons_layers_witness:
  "(''org.b'', ''b'') \<in> set (parse_icon_mapper one_entry)
   \<and> path_exists opaque_env (svg_path_of ''svgs'' ''b'')
   \<and> svg2png opaque_env (svg_path_of ''svgs'' ''b'') (icon_actual_size ICON_SIZE ICON_SCALE)
        (icon_actual_size ICON_SIZE ICON_SCALE) \<noteq> None
   \<and> path_exists failing_env (svg_path_of ''svgs'' ''b'')
   \<and> svg2png failing_env (svg_path_of ''svgs'' ''b'') (icon_actual_size ICON_SIZE ICON_SCALE)
        (icon_actual_size ICON_SIZE ICON_SCALE) = None
   \<and> (\<exists>dir bg ic. map_of (fst (generate_icons opaque_env one_entry ''svgs'' [] FG_COLOR BG_COLOR
                     ICON_SIZE ICON_SCALE)) ''org.b'' = Some dir
        \<and> map_of dir ''0.png'' = Some bg \<and> im_size bg = (ICON_SIZE, ICON_SIZE)
        \<and> map_of dir ''1.png'' = Some ic \<and> im_size ic = (ICON_SIZE, ICON_SIZE))
   \<and> (\<exists>dir bg. map_of (fst (generate_icons failing_env one_entry ''svgs'' [] FG_COLOR BG_COLOR
                     ICON_SIZE ICON_SCALE)) ''org.b'' = Some dir
        \<and> map_of dir ''0.png'' = Some bg \<and> im_size bg = (ICON_SIZE, ICON_SIZE)
        \<and> map_of dir ''1.png'' = None)"
proof -
  have a: "(''org.b'', ''b'') \<in> set (parse_icon_mapper one_entry)"
    by (simp add: one_entry_mapper)
  have b: "path_exists opaque_env (svg_path_of ''svgs'' ''b'')"
    "path_exists failing_env (svg_path_of ''svgs'' ''b'')"
    by (simp_all add: opaque_env_def failing_env_def)
  have c: "svg2png opaque_env (svg_path_of ''svgs'' ''b'') (icon_actual_size ICON_SIZE ICON_SCALE)
        (icon_actual_size ICON_SIZE ICON_SCALE) \<noteq> None"
    "svg2png failing_env (svg_path_of ''svgs'' ''b'') (icon_actual_size ICON_SIZE ICON_SCALE)
        (icon_actual_size ICON_SIZE ICON_SCALE) = None"
    by (simp_all add: opaque_env_def failing_env_def)
  have d: "\<exists>dir bg ic. map_of (fst (generate_icons opaque_env one_entry ''svgs'' [] FG_COLOR
                     BG_COLOR ICON_SIZE ICON_SCALE)) ''org.b'' = Some dir
        \<and> map_of dir ''0.png'' = Some bg \<and> im_size bg = (ICON_SIZE, ICON_SIZE)
        \<and> map_of dir ''1.png'' = Some ic \<and> im_size ic = (ICON_SIZE, ICON_SIZE)"
    using generate_icons_layers[OF a b(1), of "[]" FG_COLOR BG_COLOR ICON_SIZE ICON_SCALE] c(1)
    by blast
  have e: "\<exists>dir bg. map_of (fst (generate_icons failing_env one_entry ''svgs'' [] FG_COLOR
                     BG_COLOR ICON_SIZE ICON_SCALE)) ''org.b'' = Some dir
        \<and> map_of dir ''0.png'' = Some bg \<and> im_size bg = (ICON_SIZE, ICON_SIZE)
        \<and> map_of dir ''1.png'' = None"
    using generate_icons_layers[OF a b(2), of "[]" FG_COLOR BG_COLOR ICON_SIZE ICON_SCALE] c(2)
    by (simp add: ) blast
  show ?thesis using a b c d e by blast
qed

text \<open>
  Claim C3 as stated fails: when the asset exists and does not rasterize, the run makes
  the package directory, and the directory holds \<open>0.png\<close> only.
\<close>

theorem both_layers_counterexample:
  "Mkdir ''org.b'' \<in> set (fst (snd (generate_icons failing_env one_entry ''svgs'' [] FG_COLOR
       BG_COLOR ICON_SIZE ICON_SCALE)))
   \<and> map_of (fst (generate_icons failing_env one_entry ''svgs'' [] FG_COLOR BG_COLOR
               ICON_SIZE ICON_SCALE)) ''org.b''
       = Some [(''0.png'', create_background failing_env ICON_SIZE BG_COLOR)]
   \<and> map_of [(''0.png'', create_background failing_env ICON_SIZE BG_COLOR)] ''1.png'' = None"
proof -
  have ps: "process_svg failing_env p FG_COLOR ICON_SIZE ICON_SCALE = None" for p
    by (simp add: process_svg_def failing_env_def Let_def)
  have "generate_icons failing_env one_entry ''svgs'' [] FG_COLOR BG_COLOR ICON_SIZE ICON_SCALE
    = ([(''org.b'', [(''0.png'', create_background failing_env ICON_SIZE BG_COLOR)])],
       [Mkdir ''org.b'', Save ''org.b'' ''0.png'', Rasterize (svg_path_of ''svgs'' ''b''),
        Print_error (svg_path_of ''svgs'' ''b''), Print_failed ''b'' ''org.b''],
       0)"
    by (simp add: generate_icons_def one_entry_mapper generate_step_def Let_def ps mkdir_def
        save_png_def) (simp add: failing_env_def)
  then show ?thesis by simp
qed

lemma colorize_nth:
  assumes "k < length (im_data img)"
  shows "im_data (colorize e fg img) ! k
     = (if upper fg \<noteq> ''#000000'' then recolor_pixel (getrgb e fg) (im_data img ! k)
        else im_data img ! k)"
  using assms by (simp add: colorize_def)

lemma upper_char_fixed:
  assumes "(if CHR ''a'' \<le> c \<and> c \<le> CHR ''z'' then char_of (of_char c - (32::nat)) else c) = d"
    and "d = CHR ''#'' \<or> d = CHR ''0''"
  shows "c = d"
proof (cases "CHR ''a'' \<le> c \<and> c \<le> CHR ''z''")
  case False
  with assms show ?thesis by simp
next
  case True
  then have r: "97 \<le> (of_char c :: nat)" "(of_char c :: nat) \<le> 122"
    by (simp_all add: less_eq_char_def)
  from True assms(1) have "of_char d = (of_char (char_of (of_char c - (32::nat))) :: nat)"
    by simp
  also have "\<dots> = (of_char c - 32) mod 256" by simp
  also have "\<dots> = of_char c - 32" using r by simp
  finally have "(of_char d :: nat) = of_char c - 32" .
  with r have "65 \<le> (of_char d :: nat)" by simp
  with assms(2) show ?thesis by auto
qed

lemma map_fixed:
  assumes "\<And>c d. d \<in> set t \<Longrightarrow> f c = d \<Longrightarrow> c = d"
  shows "map f s = t \<Longrightarrow> s = t"
  using assms
proof (induction s arbitrary: t)
  case Nil
  then show ?case by simp
next
  case (Cons a s)
  then obtain b t' where t: "t = b # t'" "f a = b" "map f s = t'" by auto
  have "a = b" using Cons.prems(2)[of b a] t by simp
  moreover have "s = t'" using Cons.IH[OF t(3)] Cons.prems(2) t(1) by simp
  ultimately show ?case using t(1) by simp
qed

lemma upper_black_iff: "upper s = ''#000000'' \<longleftrightarrow> s = ''#000000''"
proof
  assume "s = ''#000000''"
  then show "upper s = ''#000000''" by (simp add: upper_def less_eq_char_def)
next
  assume "upper s = ''#000000''"
  then have "map (\<lambda>c. if CHR ''a'' \<le> c \<and> c \<le> CHR ''z''
                       then char_of (of_char c - (32::nat)) else c) s = ''#000000''"
    by (simp only: upper_def)
  then show "s = ''#000000''"
    by (rule map_fixed[rotated]) (rule upper_char_fixed, assumption, simp)
qed

text \<open>
  Claim C5. When the rasterization succeeds, \<open>process_svg\<close> returns an image with as
  many pixels as the canvas with the pasted icon. If the colour is \<open>#000000\<close> the image
  is that canvas, unchanged. Otherwise every pixel of the canvas with alpha other than
  zero becomes the foreground colour with the same alpha, and every pixel with alpha
  zero stays as it is. The test on the upper-cased colour holds for the string
  \<open>#000000\<close> only, which has no letters.
\<close>

theorem process_svg_recolor:
  assumes "svg2png e path (icon_actual_size sz sc) (icon_actual_size sz sc) = Some icon"
  shows "\<exists>img. process_svg e path fg sz sc = Some img
    \<and> length (im_data img) = length (im_data (pasted_canvas e icon sz (icon_actual_size sz sc)))
    \<and> (upper fg = ''#000000'' \<longrightarrow> img = pasted_canvas e icon sz (icon_actual_size sz sc))
    \<and> (upper fg \<noteq> ''#000000'' \<longrightarrow>
         (\<forall>k r g b a. k < length (im_data img)
            \<and> im_data (pasted_canvas e icon sz (icon_actual_size sz sc)) ! k = (r, g, b, a)
          \<longrightarrow> im_data img ! k
               = (if a \<noteq> 0
                  then (fst (getrgb e fg), fst (snd (getrgb e fg)), snd (snd (getrgb e fg)), a)
                  else (r, g, b, a))))
    \<and> (upper fg = ''#000000'') = (fg = ''#000000'')"
proof -
  let ?c = "pasted_canvas e icon sz (icon_actual_size sz sc)"
  have p: "process_svg e path fg sz sc = Some (colorize e fg ?c)"
    using assms by (simp add: process_svg_def Let_def)
  have l: "length (im_data (colorize e fg ?c)) = length (im_data ?c)"
    by (rule colorize_size)
  have b: "upper fg = ''#000000'' \<longrightarrow> colorize e fg ?c = ?c"
    by (simp add: colorize_def)
  have r: "upper fg \<noteq> ''#000000'' \<longrightarrow>
         (\<forall>k r g b a. k < length (im_data (colorize e fg ?c)) \<and> im_data ?c ! k = (r, g, b, a)
          \<longrightarrow> im_data (colorize e fg ?c) ! k
               = (if a \<noteq> 0
                  then (fst (getrgb e fg), fst (snd (getrgb e fg)), snd (snd (getrgb e fg)), a)
                  else (r, g, b, a)))"
    by (auto simp: l colorize_nth recolor_pixel_def split: prod.splits)
  show ?thesis using p l b r upper_black_iff[of fg] by blast
qed

lemma bit_length_2: "bit_length 2 = 2"
  by (rule bit_length_bounds) simp_all


lemma actual_size_2: "icon_actual_size 2 (1, 0) = 2"
  by (simp add: icon_actual_size_def float_mul_int_def round53_def bit_length_2 int_of_float_def)


lemma upper_fg: "upper FG_COLOR = ''#D1E2FC''"
  by code_simp

lemma glyph_canvas_2: "pasted_canvas glyph_env glyph 2 2 = glyph"
  by code_simp

text \<open>
  A glyph with an opaque, a half transparent and two transparent pixels, recoloured with
  the foreground colour of the script, and left alone for \<open>#000000\<close>.
\<close>

theorem process_svg_recolor_witness:
  "svg2png glyph_env ''svgs/b.svg'' (icon_actual_size 2 (1, 0)) (icon_actual_size 2 (1, 0))
     = Some glyph
   \<and> upper FG_COLOR \<noteq> ''#000000''
   \<and> im_data (pasted_canvas glyph_env glyph 2 (icon_actual_size 2 (1, 0))) ! 0 = (0, 0, 0, 255)
   \<and> im_data (pasted_canvas glyph_env glyph 2 (icon_actual_size 2 (1, 0))) ! 1 = (0, 0, 0, 0)
   \<and> im_data (pasted_canvas glyph_env glyph 2 (icon_actual_size 2 (1, 0))) ! 2 = (10, 20, 30, 128)
   \<and> (\<exists>img. process_svg glyph_env ''svgs/b.svg'' FG_COLOR 2 (1, 0) = Some img
        \<and> im_data img ! 0 = (209, 226, 252, 255)
        \<and> im_data img ! 1 = (0, 0, 0, 0)
        \<and> im_data img ! 2 = (209, 226, 252, 128))
   \<and> upper ''#000000'' = ''#000000''
   \<and> process_svg glyph_env ''svgs/b.svg'' ''#000000'' 2 (1, 0) = Some glyph"
proof -
  have h: "svg2png glyph_env ''svgs/b.svg'' (icon_actual_size 2 (1, 0)) (icon_actual_size 2 (1, 0))
     = Some glyph"
    by (simp add: glyph_env_def)
  have u: "upper FG_COLOR \<noteq> ''#000000''" by (simp add: upper_fg)
  have ub: "upper ''#000000'' = ''#000000''" by code_simp
  have c: "pasted_canvas glyph_env glyph 2 (icon_actual_size 2 (1, 0)) = glyph"
    unfolding actual_size_2 by (rule glyph_canvas_2)
  have d: "im_data glyph ! 0 = (0, 0, 0, 255)" "im_data glyph ! 1 = (0, 0, 0, 0)"
    "im_data glyph ! 2 = (10, 20, 30, 128)" "length (im_data glyph) = 4"
    by (simp_all add: glyph_def)
  have g: "getrgb glyph_env FG_COLOR = (209, 226, 252)"
    by (simp add: glyph_env_def example_getrgb_def FG_COLOR_def)
  obtain img where i: "process_svg glyph_env ''svgs/b.svg'' FG_COLOR 2 (1, 0) = Some img"
    "length (im_data img) = length (im_data glyph)"
    "\<forall>k r g b a. k < length (im_data img) \<and> im_data glyph ! k = (r, g, b, a)
          \<longrightarrow> im_data img ! k
               = (if a \<noteq> 0 then (209, 226, 252, a) else (r, g, b, a))"
    using process_svg_recolor[OF h, of FG_COLOR] u unfolding c g by auto
  have "im_data img ! 0 = (209, 226, 252, 255)" "im_data img ! 1 = (0, 0, 0, 0)"
    "im_data img ! 2 = (209, 226, 252, 128)"
    using i(2,3) d by auto
  moreover have "process_svg glyph_env ''svgs/b.svg'' ''#000000'' 2 (1, 0) = Some glyph"
    using process_svg_recolor[OF h, of "''#000000''"] ub unfolding c by auto
  ultimately show ?thesis using h u ub i(1) d unfolding c by blast
qed








subsection \<open>Packing\<close>

lemma startswith_iff: "startswith s p \<longleftrightarrow> (\<exists>post. s = p @ post)"
proof
  assume "startswith s p"
  then have "s = p @ drop (length p) s"
    unfolding startswith_def by (metis append_take_drop_id)
  then show "\<exists>post. s = p @ post" ..
next
  assume "\<exists>post. s = p @ post"
  then show "startswith s p" unfolding startswith_def by auto
qed

lemma contains_iff: "contains s n \<longleftrightarrow> (\<exists>pre post. s = pre @ n @ post)"
proof (induction s)
  case Nil
  show ?case by auto
next
  case (Cons c cs)
  show ?case
  proof
    assume "contains (c # cs) n"
    then consider "startswith (c # cs) n" | "contains cs n" by auto
    then show "\<exists>pre post. c # cs = pre @ n @ post"
    proof cases
      case 1
      then obtain post where "c # cs = [] @ n @ post" unfolding startswith_iff by auto
      then show ?thesis by blast
    next
      case 2
      then obtain pre post where "cs = pre @ n @ post" using Cons.IH by blast
      then have "c # cs = (c # pre) @ n @ post" by simp
      then show ?thesis by blast
    qed
  next
    assume "\<exists>pre post. c # cs = pre @ n @ post"
    then obtain pre post where e: "c # cs = pre @ n @ post" by blast
    show "contains (c # cs) n"
    proof (cases pre)
      case Nil
      with e have "startswith (c # cs) n" unfolding startswith_iff by auto
      then show ?thesis by simp
    next
      case (Cons a pre')
      with e have "cs = pre' @ n @ post" by simp
      then have "contains cs n" using Cons.IH by blast
      then show ?thesis by simp
    qed
  qed
qed

lemma prefix_before_sep:
  assumes "n @ post = x @ sep # y" "sep \<notin> set n"
  shows "\<exists>post'. x = n @ post'"
  using assms
proof (induction n arbitrary: x)
  case Nil
  then show ?case by simp
next
  case (Cons c n)
  show ?case
  proof (cases x)
    case Nil
    with Cons.prems show ?thesis by simp
  next
    case (Cons a x')
    with Cons.prems have "a = c" "n @ post = x' @ sep # y" "sep \<notin> set n" by auto
    with Cons.IH[of x'] obtain post' where "x' = n @ post'" by blast
    with \<open>a = c\<close> Cons have "x = (c # n) @ post'" by simp
    then show ?thesis by blast
  qed
qed

lemma occurrence_beside_sep:
  assumes "x @ sep # y = pre @ n @ post" "sep \<notin> set n" "n \<noteq> []"
  shows "(\<exists>post'. x = pre @ n @ post') \<or> (\<exists>pre'. y = pre' @ n @ post)"
  using assms
proof (induction x arbitrary: pre)
  case Nil
  show ?case
  proof (cases pre)
    case Nil
    with Nil.prems show ?thesis by (cases n) auto
  next
    case (Cons a pre')
    with Nil.prems show ?thesis by auto
  qed
next
  case (Cons a x)
  show ?case
  proof (cases pre)
    case Nil
    with Cons.prems have "n @ post = (a # x) @ sep # y" by simp
    from prefix_before_sep[OF this Cons.prems(2)] Nil show ?thesis by auto
  next
    case (Cons b pre')
    with Cons.prems have ab: "a = b" and "x @ sep # y = pre' @ n @ post" by simp_all
    from Cons.IH[OF this(2) Cons.prems(2,3)] Cons ab show ?thesis by auto
  qed
qed

lemma contains_sep:
  assumes "sep \<notin> set n" "n \<noteq> []"
  shows "contains (x @ sep # y) n \<longleftrightarrow> contains x n \<or> contains y n"
proof
  assume "contains (x @ sep # y) n"
  then obtain pre post where "x @ sep # y = pre @ n @ post" unfolding contains_iff by blast
  from occurrence_beside_sep[OF this assms] show "contains x n \<or> contains y n"
    unfolding contains_iff by blast
next
  assume "contains x n \<or> contains y n"
  then have "(\<exists>pre post. x = pre @ n @ post) \<or> (\<exists>pre post. y = pre @ n @ post)"
    unfolding contains_iff .
  then show "contains (x @ sep # y) n"
    unfolding contains_iff by (metis append_assoc Cons_eq_appendI)
qed

lemma contains_Nil: "n \<noteq> [] \<Longrightarrow> \<not> contains [] n"
  by simp

lemma contains_os_join:
  "contains (os_join root name) ''icons'' \<longleftrightarrow> contains root ''icons'' \<or> contains name ''icons''"
proof (cases "root = []")
  case True
  then show ?thesis by (simp add: os_join_def)
next
  case False
  show ?thesis
  proof (cases "last root = CHR ''/''")
    case True
    with False have r: "root = butlast root @ CHR ''/'' # []"
      by (metis append_butlast_last_id)
    have "os_join root name = butlast root @ CHR ''/'' # name"
      using True False by (simp add: os_join_def) (metis r append.assoc append_Cons append_Nil)
    moreover have "contains root ''icons'' \<longleftrightarrow> contains (butlast root) ''icons''"
      using contains_sep[of "CHR ''/''" "''icons''" "butlast root" "[]"] r by simp
    ultimately show ?thesis
      using contains_sep[of "CHR ''/''" "''icons''" "butlast root" name] by simp
  next
    case F: False
    then have "os_join root name = root @ CHR ''/'' # name"
      using False by (simp add: os_join_def)
    then show ?thesis
      using contains_sep[of "CHR ''/''" "''icons''" root name] by simp
  qed
qed

lemma contains_foldl_os_join:
  "contains (foldl os_join root sub) ''icons''
     \<longleftrightarrow> contains root ''icons'' \<or> (\<exists>n \<in> set sub. contains n ''icons'')"
  by (induction sub arbitrary: root) (auto simp: contains_os_join)

lemma all_files_append:
  "all_files (p @ rel) d = map (\<lambda>(s, f, b). (p @ s, f, b)) (all_files rel d)"
  by (induction rel d rule: all_files.induct) simp_all

lemma all_files_rel:
  "all_files rel d = map (\<lambda>(s, f, b). (rel @ s, f, b)) (all_files [] d)"
  using all_files_append[of rel "[]" d] by simp

lemma all_files_top: "([], f, b) \<in> set (all_files [] d) \<longleftrightarrow> (f, b) \<in> set (files_of d)"
proof (induction d)
  case Nil
  show ?case by (simp add: files_of_def)
next
  case (Cons x d)
  obtain n y where x: "x = (n, y)" by (cases x)
  show ?case
  proof (cases y)
    case (File b')
    then show ?thesis using Cons.IH x by (auto simp: files_of_def)
  next
    case (Dir c)
    have "([], f, b) \<notin> set (all_files [n] c)"
      unfolding all_files_rel[of "[n]" c] by auto
    then show ?thesis using Cons.IH x Dir by (auto simp: files_of_def)
  qed
qed

lemma kept_of_append: "kept_of (xs @ ys) = kept_of xs @ kept_of ys"
  by (simp add: kept_of_def)

lemma kept_of_Cons:
  "set (kept_of ((root, rel, files) # ws))
     = (if contains root ''icons'' then {} else (\<lambda>(f, b). (rel, f, b)) ` set files)
       \<union> set (kept_of ws)"
  by (auto simp: kept_of_def)

lemma kept_of_walk:
  "set (kept_of (walk root rel d))
     = {(rel @ sub, f, b) | sub f b.
          (sub, f, b) \<in> set (all_files [] d) \<and> \<not> contains (foldl os_join root sub) ''icons''}"
  and kept_of_walk_subdirs:
  "set (kept_of (walk_subdirs root rel d))
     = {(rel @ sub, f, b) | sub f b.
          (sub, f, b) \<in> set (all_files [] d) \<and> sub \<noteq> []
          \<and> \<not> contains (foldl os_join root sub) ''icons''}"
proof (induction root rel d and root rel d rule: walk_walk_subdirs.induct)
  case (1 root rel d)
  have "{(rel @ sub, f, b) | sub f b.
          (sub, f, b) \<in> set (all_files [] d) \<and> \<not> contains (foldl os_join root sub) ''icons''}
      = (if contains root ''icons'' then {} else (\<lambda>(f, b). (rel, f, b)) ` set (files_of d))
        \<union> {(rel @ sub, f, b) | sub f b.
          (sub, f, b) \<in> set (all_files [] d) \<and> sub \<noteq> []
          \<and> \<not> contains (foldl os_join root sub) ''icons''}"
    (is "?L = ?R")
  proof (intro set_eqI iffI)
    fix x assume "x \<in> ?L"
    then obtain sub f b where x: "x = (rel @ sub, f, b)" "(sub, f, b) \<in> set (all_files [] d)"
      "\<not> contains (foldl os_join root sub) ''icons''" by blast
    show "x \<in> ?R"
    proof (cases "sub = []")
      case True
      with x have "(f, b) \<in> set (files_of d)" "\<not> contains root ''icons''"
        by (simp_all add: all_files_top)
      with x True show ?thesis by force
    next
      case False
      with x show ?thesis by blast
    qed
  next
    fix x assume "x \<in> ?R"
    then consider (top) "\<not> contains root ''icons''" "x \<in> (\<lambda>(f, b). (rel, f, b)) ` set (files_of d)"
      | (sub) "x \<in> {(rel @ sub, f, b) | sub f b.
          (sub, f, b) \<in> set (all_files [] d) \<and> sub \<noteq> []
          \<and> \<not> contains (foldl os_join root sub) ''icons''}"
      by (auto split: if_splits)
    then show "x \<in> ?L"
    proof cases
      case top
      then obtain f b where "x = (rel @ [], f, b)" "(f, b) \<in> set (files_of d)" by auto
      with top(1) show ?thesis using all_files_top[of f b d] by force
    next
      case sub
      then show ?thesis by blast
    qed
  qed
  then show ?case using 1 by (simp only: walk.simps kept_of_Cons)
next
  case (2 root rel)
  show ?case by (simp add: kept_of_def)
next
  case (3 root rel n b r)
  then show ?case by auto
next
  case (4 root rel n c r)
  have a: "set (kept_of (walk (os_join root n) (rel @ [n]) c))
      = {(rel @ sub, f, b) | sub f b.
          (sub, f, b) \<in> set (all_files [n] c) \<and> sub \<noteq> []
          \<and> \<not> contains (foldl os_join root sub) ''icons''}"
    unfolding 4(1) all_files_rel[of "[n]" c] by force
  show ?case
    unfolding walk_subdirs.simps kept_of_append set_append a 4(2) all_files.simps
    by auto
qed

lemma pack_kept:
  "pack_magisk_module top_dir d
     = map (\<lambda>(rel, f, b). (arcname (rel @ [f]), b)) (kept_of (walk top_dir [] d))"
  by (simp add: pack_magisk_module_def kept_of_def map_concat comp_def split_def if_distrib
      cong: if_cong)

lemma pack_entries:
  "(a, b) \<in> set (pack_magisk_module top_dir d)
     \<longleftrightarrow> (\<exists>rel f. (rel, f, b) \<in> set (all_files [] d) \<and> a = arcname (rel @ [f])
            \<and> \<not> contains (foldl os_join top_dir rel) ''icons'')"
proof -
  have "(a, b) \<in> set (pack_magisk_module top_dir d)
     \<longleftrightarrow> (\<exists>rel f. (rel, f, b) \<in> set (kept_of (walk top_dir [] d)) \<and> a = arcname (rel @ [f]))"
    unfolding pack_kept by force
  also have "\<dots> \<longleftrightarrow> (\<exists>rel f. (rel, f, b) \<in> set (all_files [] d) \<and> a = arcname (rel @ [f])
            \<and> \<not> contains (foldl os_join top_dir rel) ''icons'')"
    unfolding kept_of_walk by auto
  finally show ?thesis .
qed

text \<open>
  Claim C7, as amended. When the path of the magisk template itself does not contain
  \<open>icons\<close>, a file of the template is an entry of the module archive, under its path
  relative to the template, exactly when no directory between the template and the
  file has \<open>icons\<close> in its name. The name of the file itself plays no part.
\<close>

theorem pack_magisk_module_entries:
  assumes "\<not> contains top_dir ''icons''"
  shows "(a, b) \<in> set (pack_magisk_module top_dir d)
     \<longleftrightarrow> (\<exists>rel f. (rel, f, b) \<in> set (all_files [] d) \<and> a = arcname (rel @ [f])
            \<and> (\<forall>n \<in> set rel. \<not> contains n ''icons''))"
  unfolding pack_entries contains_foldl_os_join using assms by auto

lemma magisk_with_icons_files:
  "all_files [] magisk_with_icons
     = [([], ''module.prop'', Data ''prop''), ([], ''icons'', example_archive),
        ([''icons_old''], ''a.txt'', Data ''a'')]"
  by (simp add: magisk_with_icons_def)

lemma no_icons_in_path: "\<not> contains ''/w/magisk_template_HyperOS2'' ''icons''"
  by code_simp

text \<open>
  A template with the file \<open>icons\<close> and a directory \<open>icons_old\<close>: the file is an entry,
  the file inside the directory is not.
\<close>

theorem pack_magisk_module_entries_witness:
  "\<not> contains ''/w/magisk_template_HyperOS2'' ''icons''
   \<and> ([], ''icons'', example_archive) \<in> set (all_files [] magisk_with_icons)
   \<and> (''icons'', example_archive)
        \<in> set (pack_magisk_module ''/w/magisk_template_HyperOS2'' magisk_with_icons)
   \<and> ([''icons_old''], ''a.txt'', Data ''a'') \<in> set (all_files [] magisk_with_icons)
   \<and> contains ''icons_old'' ''icons''
   \<and> (''icons_old/a.txt'', Data ''a'')
        \<notin> set (pack_magisk_module ''/w/magisk_template_HyperOS2'' magisk_with_icons)"
proof -
  note t = pack_magisk_module_entries[OF no_icons_in_path, of _ _ magisk_with_icons]
  have c: "contains ''icons_old'' ''icons''" by code_simp
  have "(''icons'', example_archive)
        \<in> set (pack_magisk_module ''/w/magisk_template_HyperOS2'' magisk_with_icons)"
    unfolding t by (rule exI[of _ "[]"], rule exI[of _ "''icons''"])
      (simp add: magisk_with_icons_files)
  moreover have "(''icons_old/a.txt'', Data ''a'')
        \<notin> set (pack_magisk_module ''/w/magisk_template_HyperOS2'' magisk_with_icons)"
    unfolding t using c by (auto simp: magisk_with_icons_files)
  ultimately show ?thesis using c no_icons_in_path by (simp add: magisk_with_icons_files)
qed

text \<open>
  Claim C7 as stated fails: the file \<open>icons\<close> of the template has \<open>icons\<close> in its path,
  absolute and relative, and is an entry of the module archive.
\<close>

theorem icons_file_counterexample:
  "([], ''icons'', example_archive) \<in> set (all_files [] magisk_with_icons)
   \<and> contains (os_join ''/w/magisk_template_HyperOS2'' ''icons'') ''icons''
   \<and> contains (arcname [''icons'']) ''icons''
   \<and> (arcname [''icons''], example_archive)
        \<in> set (pack_magisk_module ''/w/magisk_template_HyperOS2'' magisk_with_icons)"
  by code_simp

text \<open>
  Claim C2 at a working directory whose path contains \<open>icons\<close>: \<open>pack_icons_zip\<close>
  completes and leaves the intermediate archive in the icons template and in the
  magisk template, and the module archive that \<open>pack_magisk_module\<close> writes afterwards
  has no entry at all, so no entry \<open>icons\<close>.
\<close>

theorem module_archive_empty_under_icons_path:
  "run_packers example_output ''/home/icons/icons_template'' example_icons_template
       ''/home/icons/magisk_template_HyperOS2'' example_magisk_template
     = Inr (Some (File example_archive), [])"
  by code_simp

text \<open>The same run below a path without \<open>icons\<close>.\<close>

lemma module_archive_example:
  "run_packers example_output ''/w/icons_template'' example_icons_template
       ''/w/magisk_template_HyperOS2'' example_magisk_template
     = Inr (Some (File example_archive),
            [(''module.prop'', Data ''prop''), (''icons'', example_archive),
             (''META-INF/update-binary'', Data ''sh'')])"
  by code_simp

text \<open>
  In general: below a path that contains \<open>icons\<close> the module archive is empty; below any
  other path it holds the intermediate archive as the entry \<open>icons\<close>, and every other
  entry is an entry that the magisk template gives without the first call.
\<close>

lemma pack_under_icons_path:
  assumes "contains top_dir ''icons''"
  shows "pack_magisk_module top_dir d = []"
proof -
  have "x \<notin> set (pack_magisk_module top_dir d)" for x
    using assms pack_entries[of "fst x" "snd x" top_dir d] contains_foldl_os_join[of top_dir]
    by auto
  then show ?thesis by (cases "pack_magisk_module top_dir d") auto
qed

lemma all_files_dict_set:
  "set (all_files rel (dict_set k (File z) d)) \<subseteq> insert (rel, k, z) (set (all_files rel d))"
  "(rel, k, z) \<in> set (all_files rel (dict_set k (File z) d))"
proof (induction d)
  case Nil
  { case 1 show ?case by simp }
  { case 2 show ?case by simp }
next
  case (Cons x d)
  obtain n y where x: "x = (n, y)" by (cases x)
  { case 1 show ?case using Cons.IH(1) x by (cases y) auto }
  { case 2 show ?case using Cons.IH(2) x by (cases y) auto }
qed

lemma pack_icons_zip_result:
  assumes "pack_icons_zip output idir t m = Inr (t', m')"
  shows "\<exists>z. map_of t' ''icons'' = Some (File z) \<and> m' = dict_set ''icons'' (File z) m"
  using assms
  by (auto simp: pack_icons_zip_def Let_def map_of_dict_set dict_set_map_of
      split: sum.splits option.splits node.splits)

lemma module_archive_holds_icons:
  assumes "pack_icons_zip output idir t m = Inr (t', m')"
    and "\<not> contains mdir ''icons''"
  shows "\<exists>z. map_of t' ''icons'' = Some (File z)
    \<and> (''icons'', z) \<in> set (pack_magisk_module mdir m')
    \<and> set (pack_magisk_module mdir m')
        \<subseteq> insert (''icons'', z) (set (pack_magisk_module mdir m))"
proof -
  obtain z where z: "map_of t' ''icons'' = Some (File z)" "m' = dict_set ''icons'' (File z) m"
    using pack_icons_zip_result[OF assms(1)] by blast
  have "([], ''icons'', z) \<in> set (all_files [] m')"
    unfolding z(2) by (rule all_files_dict_set)
  then have a: "(''icons'', z) \<in> set (pack_magisk_module mdir m')"
    unfolding pack_entries using assms(2) by force
  have b: "set (pack_magisk_module mdir m')
        \<subseteq> insert (''icons'', z) (set (pack_magisk_module mdir m))"
  proof
    fix x assume "x \<in> set (pack_magisk_module mdir m')"
    then obtain rel f where x: "(rel, f, snd x) \<in> set (all_files [] m')"
      "fst x = arcname (rel @ [f])" "\<not> contains (foldl os_join mdir rel) ''icons''"
      using pack_entries[of "fst x" "snd x" mdir m'] by auto
    from x(1) have "(rel, f, snd x) = ([], ''icons'', z) \<or> (rel, f, snd x) \<in> set (all_files [] m)"
      unfolding z(2) using all_files_dict_set(1)[of "[]" "''icons''" z m] by blast
    then show "x \<in> insert (''icons'', z) (set (pack_magisk_module mdir m))"
    proof
      assume "(rel, f, snd x) = ([], ''icons'', z)"
      with x(2) have "x = (''icons'', z)" by (cases x) simp
      then show ?thesis by simp
    next
      assume "(rel, f, snd x) \<in> set (all_files [] m)"
      with x(2,3) have "(fst x, snd x) \<in> set (pack_magisk_module mdir m)"
        unfolding pack_entries by blast
      then show ?thesis by simp
    qed
  qed
  show ?thesis using z(1) a b by blast
qed

end
